theory Spec2Isabelle
  imports Main "HOL-Library.Word" "HOL-Library.Multiset"
begin

unbundle bit_operations_syntax

section \<open>Graph primitives (filter\_maximal.go, canonicalize.go, verify\_penny)\<close>

text \<open>
  The Go programs keep the vertex count and the edge tables in package variables
  \<open>n\<close>, \<open>numEdges\<close>, \<open>edgeIndex\<close>, \<open>edgePairs\<close> that \<open>initEdges\<close> fills once.
  Here they are the fields of a record that \<open>initEdges\<close> returns and that every
  other function takes as its first argument. The vertex count is a \<open>nat\<close>: a negative
  \<open>n\<close> makes \<open>make\<close> panic before anything else runs.
\<close>

type_synonym Graph = "64 word"
type_synonym byte = "8 word"

record tables =
  nV :: nat
  numEdges :: nat
  edgeIndex :: "nat list list"
  edgePairs :: "(nat \<times> nat) list"

definition set2d :: "nat list list \<Rightarrow> nat \<Rightarrow> nat \<Rightarrow> nat \<Rightarrow> nat list list" where
  "set2d m i j v = m[i := (m ! i)[j := v]]"

text \<open>The body of the inner loop of \<open>initEdges\<close>; the running \<open>idx\<close> is the second component.\<close>

definition initEdges_body :: "nat \<Rightarrow> nat \<Rightarrow> tables \<times> nat \<Rightarrow> tables \<times> nat" where
  "initEdges_body i j = (\<lambda>(T, idx).
     (T\<lparr>edgeIndex := set2d (set2d (edgeIndex T) i j idx) j i idx,
        edgePairs := (edgePairs T)[idx := (i, j)]\<rparr>, idx + 1))"

definition initEdges :: "nat \<Rightarrow> tables" where
  "initEdges vertices =
     (let n = vertices;
          ne = n * (n - 1) div 2;
          T0 = \<lparr>nV = n, numEdges = ne,
                edgeIndex = replicate n (replicate n 0),
                edgePairs = replicate ne (0, 0)\<rparr>
      in fst (fold (\<lambda>i. fold (initEdges_body i) [i + 1..<n]) [0..<n] (T0, 0)))"


text \<open>
  \<open>g&(1<<idx) != 0\<close> and \<open>g |= 1 << idx\<close> on \<open>Graph = uint64\<close>. Go gives \<open>0\<close> for a
  shift count of 64 or more, as \<open>push_bit\<close> on a 64-bit word does.
\<close>

definition hasbit :: "Graph \<Rightarrow> nat \<Rightarrow> bool" where
  "hasbit g idx \<longleftrightarrow> g AND push_bit idx 1 \<noteq> 0"

definition setbit :: "Graph \<Rightarrow> nat \<Rightarrow> Graph" where
  "setbit g idx = g OR push_bit idx 1"

text \<open>\<open>Graph.hasEdge\<close> (verify\_penny): the pair is ordered before the table is read.\<close>

definition hasEdge :: "tables \<Rightarrow> Graph \<Rightarrow> nat \<Rightarrow> nat \<Rightarrow> bool" where
  "hasEdge T g i j =
     (let (i, j) = (if i > j then (j, i) else (i, j))
      in hasbit g (edgeIndex T ! i ! j))"

text \<open>
  \<open>Graph.edgeCount\<close>: the loop \<open>for tmp != 0 { count += int(tmp & 1); tmp >>= 1 }\<close>,
  with \<open>count\<close> as the accumulator \<open>cnt\<close>.
\<close>

function edgeCount_loop :: "Graph \<Rightarrow> nat \<Rightarrow> nat" where
  "edgeCount_loop tmp cnt =
     (if tmp \<noteq> 0 then edgeCount_loop (drop_bit 1 tmp) (cnt + unat (tmp AND 1)) else cnt)"
  by pat_completeness auto
termination
proof (relation "measure (\<lambda>(tmp, cnt). unat tmp)")
  show "wf (measure (\<lambda>(tmp :: Graph, cnt :: nat). unat tmp))" by simp
next
  fix tmp :: Graph and cnt :: nat
  assume "tmp \<noteq> 0"
  then have "0 < unat tmp" by (simp add: unat_gt_0)
  then have "unat tmp div 2 < unat tmp" by simp
  then show "((drop_bit 1 tmp, cnt + unat (tmp AND 1)), (tmp, cnt))
      \<in> measure (\<lambda>(tmp, cnt). unat tmp)"
    by (simp add: drop_bit_eq_div unat_div)
qed

declare edgeCount_loop.simps [simp del]

definition edgeCount :: "Graph \<Rightarrow> nat" where
  "edgeCount g = edgeCount_loop g 0"

subsection \<open>The graph6 codec\<close>

text \<open>
  A Go string is a sequence of bytes. \<open>strings.TrimSpace\<close> belongs to the Go library, not
  to this repository, so the decoder takes it as the parameter \<open>TrimSpace\<close>;
  \<open>TrimSpace_ascii\<close> is the library function on lines whose white space is ASCII.
\<close>

definition asciiSpace :: "byte \<Rightarrow> bool" where
  "asciiSpace c \<longleftrightarrow> c = 9 \<or> c = 10 \<or> c = 11 \<or> c = 12 \<or> c = 13 \<or> c = 32"

definition TrimSpace_ascii :: "byte list \<Rightarrow> byte list" where
  "TrimSpace_ascii s = rev (dropWhile asciiSpace (rev (dropWhile asciiSpace s)))"

text \<open>
  The six bits of each character after the first, high bit first:
  \<open>val := int(line[i]) - 63; for b := 5; b >= 0; b-- { bits = append(bits, byte((val>>b)&1)) }\<close>.
  \<open>val\<close> is a signed \<open>int\<close>, negative for a byte below 63; \<open>>>\<close> is then the
  arithmetic shift, which \<open>drop_bit\<close> on \<open>int\<close> is.
\<close>

definition decode_bits :: "byte list \<Rightarrow> byte list" where
  "decode_bits cs =
     concat (map (\<lambda>c. let val = uint c - 63
                       in map (\<lambda>b. (word_of_int (drop_bit b val AND 1) :: byte)) [5, 4, 3, 2, 1, 0])
                 cs)"

definition parseGraph6_body :: "tables \<Rightarrow> byte list \<Rightarrow> nat \<Rightarrow> nat \<Rightarrow> Graph \<times> nat \<Rightarrow> Graph \<times> nat" where
  "parseGraph6_body T bits j i = (\<lambda>(g, bitIdx).
     (if bitIdx < length bits \<and> bits ! bitIdx = 1 then setbit g (edgeIndex T ! i ! j) else g,
      bitIdx + 1))"

definition parseGraph6 :: "(byte list \<Rightarrow> byte list) \<Rightarrow> tables \<Rightarrow> byte list \<Rightarrow> Graph" where
  "parseGraph6 TrimSpace T line0 =
     (let line = TrimSpace line0 in
      if length line = 0 then 0
      else
        let nFromLine = uint (line ! 0) - 63 in
        if nFromLine \<noteq> int (nV T) then 0
        else
          let bits = decode_bits (drop 1 line)
          in fst (fold (\<lambda>j. fold (parseGraph6_body T bits j) [0..<j]) [1..<nV T] (0, 0)))"

text \<open>
  \<open>Graph.toGraph6\<close>: the bits of the upper triangle column by column, padded with zeros
  to a multiple of six, packed six to a character. \<open>byte(n + 63)\<close> keeps the low eight
  bits, as \<open>of_nat\<close> into an 8-bit word does.
\<close>

definition graph_bits :: "tables \<Rightarrow> Graph \<Rightarrow> byte list" where
  "graph_bits T g =
     concat (map (\<lambda>j. map (\<lambda>i. if hasbit g (edgeIndex T ! i ! j) then 1 else 0) [0..<j])
                 [1..<nV T])"

function pad6 :: "byte list \<Rightarrow> byte list" where
  "pad6 bits = (if length bits mod 6 \<noteq> 0 then pad6 (bits @ [0]) else bits)"
  by pat_completeness auto
termination
  by (relation "measure (\<lambda>bits. 5 - (length bits + 5) mod 6)") (auto, presburger)

declare pad6.simps [simp del]

definition pack6 :: "byte list \<Rightarrow> nat \<Rightarrow> byte" where
  "pack6 bits i =
     push_bit 5 (bits ! i) OR push_bit 4 (bits ! (i + 1)) OR push_bit 3 (bits ! (i + 2)) OR
     push_bit 2 (bits ! (i + 3)) OR push_bit 1 (bits ! (i + 4)) OR bits ! (i + 5)"

definition toGraph6 :: "tables \<Rightarrow> Graph \<Rightarrow> byte list" where
  "toGraph6 T g =
     (let bits = pad6 (graph_bits T g)
      in (of_nat (nV T + 63) :: byte) #
         map (\<lambda>k. pack6 bits (6 * k) + 63) [0..<(length bits + 5) div 6])"

text \<open>
  The reading loop of \<open>main\<close> in filter\_maximal.go, for one input file: a line whose
  graph is the zero sentinel is dropped, any other graph is appended and \<open>count\<close> (here
  \<open>cnt\<close>) goes up by one. \<open>read_line\<close> is the body of the loop, \<open>read_file\<close> the loop
  over the tokens of the scanner.
  (The loop of verify\_penny is the same without \<open>count\<close>.)
\<close>

definition read_line :: "(byte list \<Rightarrow> byte list) \<Rightarrow> tables \<Rightarrow> byte list \<Rightarrow> Graph list \<times> nat \<Rightarrow> Graph list \<times> nat" where
  "read_line TrimSpace T line = (\<lambda>(allGraphs, cnt).
     (let g = parseGraph6 TrimSpace T line
      in if g \<noteq> 0 then (allGraphs @ [g], cnt + 1) else (allGraphs, cnt)))"

text \<open>
  The lines come from a \<open>bufio.Scanner\<close> with the \<open>ScanLines\<close> split function and the
  default buffer, and \<open>scanner.Err\<close> is never read. \<open>Scan\<close> yields the bytes up to the next
  newline, without a trailing carriage return; when 65536 bytes hold no newline it
  fails with \<open>ErrTooLong\<close> and every later call returns false, so the loop ends there.
  A last line without newline is a token, an empty rest is not.
\<close>

definition MaxScanTokenSize :: nat where
  "MaxScanTokenSize = 64 * 1024"

definition dropCR :: "byte list \<Rightarrow> byte list" where
  "dropCR data = (if data \<noteq> [] \<and> last data = 13 then butlast data else data)"

function scan_lines :: "byte list \<Rightarrow> byte list list" where
  "scan_lines input =
     (if input = [] then []
      else let line = takeWhile (\<lambda>c. c \<noteq> 10) input;
               rest = dropWhile (\<lambda>c. c \<noteq> 10) input
           in if MaxScanTokenSize \<le> length line then []
              else dropCR line # (if rest = [] then [] else scan_lines (tl rest)))"
  by pat_completeness auto
termination
proof (relation "measure length")
  show "wf (measure length)" by simp
next
  fix input :: "byte list" and x xa
  assume "input \<noteq> []" "xa = dropWhile (\<lambda>c. c \<noteq> 10) input" "xa \<noteq> []"
  then have "length (tl xa) < length xa" "length xa \<le> length input"
    by (simp_all add: length_dropWhile_le)
  then show "(tl xa, input) \<in> measure length" by simp
qed

declare scan_lines.simps [simp del]

definition read_file :: "(byte list \<Rightarrow> byte list) \<Rightarrow> tables \<Rightarrow> byte list \<Rightarrow> Graph list \<times> nat" where
  "read_file TrimSpace T input = fold (read_line TrimSpace T) (scan_lines input) ([], 0)"


section \<open>The edge tables\<close>

text \<open>
  \<open>all_pairs n\<close> lists the pairs \<open>i < j < n\<close> in the order in which the two loops of
  \<open>initEdges\<close> visit them; \<open>square\<close> says that a table has \<open>n\<close> rows of length \<open>n\<close>.
\<close>

definition all_pairs :: "nat \<Rightarrow> (nat \<times> nat) list" where
  "all_pairs n = concat (map (\<lambda>i. map (Pair i) [i + 1..<n]) [0..<n])"

definition square :: "nat \<Rightarrow> nat list list \<Rightarrow> bool" where
  "square n m \<longleftrightarrow> length m = n \<and> (\<forall>r \<in> set m. length r = n)"

lemma set2d_nth:
  "square n m \<Longrightarrow> i < n \<Longrightarrow> j < n \<Longrightarrow> a < n \<Longrightarrow> b < n \<Longrightarrow>
   set2d m i j v ! a ! b = (if a = i \<and> b = j then v else m ! a ! b)"
proof -
  assume sq: "square n m" and b: "i < n" "j < n" "a < n" "b < n"
  then have "m ! i \<in> set m" by (simp add: square_def)
  with sq have "length (m ! i) = n" "length m = n" by (auto simp: square_def)
  then show ?thesis using b by (auto simp: set2d_def nth_list_update)
qed

lemma set2d_square: "square n m \<Longrightarrow> square n (set2d m i j v)"
proof (cases "i < length m")
  case True
  assume "square n m"
  with True show ?thesis
    by (auto simp: set2d_def square_def dest!: set_update_subset_insert [THEN subsetD])
next
  case False
  assume "square n m"
  with False show ?thesis by (simp add: set2d_def list_update_beyond)
qed

lemma fold_nested_pairs:
  "fold (\<lambda>i. fold (f i) [i + 1..<n]) xs s =
   fold (\<lambda>(i, j). f i j) (concat (map (\<lambda>i. map (Pair i) [i + 1..<n]) xs)) s"
  by (induction xs arbitrary: s) (simp_all add: fold_map comp_def)

lemma initEdges_fold:
  "distinct ps \<Longrightarrow> \<forall>(i, j) \<in> set ps. i < j \<and> j < n \<Longrightarrow> square n (edgeIndex T) \<Longrightarrow>
   idx + length ps \<le> length (edgePairs T) \<Longrightarrow>
   fold (\<lambda>(i, j). initEdges_body i j) ps (T, idx) = (T', idx') \<Longrightarrow>
     idx' = idx + length ps \<and> nV T' = nV T \<and> numEdges T' = numEdges T \<and>
     length (edgePairs T') = length (edgePairs T) \<and> square n (edgeIndex T') \<and>
     (\<forall>k < length ps. edgePairs T' ! (idx + k) = ps ! k \<and>
        edgeIndex T' ! fst (ps ! k) ! snd (ps ! k) = idx + k \<and>
        edgeIndex T' ! snd (ps ! k) ! fst (ps ! k) = idx + k) \<and>
     (\<forall>k < idx. edgePairs T' ! k = edgePairs T ! k) \<and>
     (\<forall>a b. a < n \<and> b < n \<and> (a, b) \<notin> set ps \<and> (b, a) \<notin> set ps \<longrightarrow>
        edgeIndex T' ! a ! b = edgeIndex T ! a ! b)"
proof (induction ps arbitrary: T idx)
  case Nil
  then show ?case by simp
next
  case (Cons p ps)
  obtain i j where p: "p = (i, j)" by (cases p)
  from Cons.prems p have ij: "i < j" "j < n" by auto
  define T1 where "T1 = T\<lparr>edgeIndex := set2d (set2d (edgeIndex T) i j idx) j i idx,
        edgePairs := (edgePairs T)[idx := (i, j)]\<rparr>"
  have sq1: "square n (edgeIndex T1)"
    using Cons.prems(3) by (simp add: T1_def set2d_square)
  have step: "fold (\<lambda>(i, j). initEdges_body i j) ps (T1, idx + 1) = (T', idx')"
    using Cons.prems(5) by (simp add: p initEdges_body_def T1_def)
  have len1: "idx + 1 + length ps \<le> length (edgePairs T1)"
    using Cons.prems(4) by (simp add: T1_def)
  have d: "distinct ps" "\<forall>(i, j) \<in> set ps. i < j \<and> j < n"
    using Cons.prems by auto
  note IH = Cons.IH [OF d sq1 len1 step]
  have notin: "(i, j) \<notin> set ps" "(j, i) \<notin> set ps"
    using Cons.prems(1,2) ij p by auto
  have e1: "edgeIndex T1 ! a ! b = (if (a = i \<and> b = j) \<or> (a = j \<and> b = i) then idx else edgeIndex T ! a ! b)"
    if "a < n" "b < n" for a b
  proof -
    have sq': "square n (set2d (edgeIndex T) i j idx)" using Cons.prems(3) by (rule set2d_square)
    have ib: "i < n" using ij by simp
    show ?thesis
      unfolding T1_def using ij that
      by (auto simp: set2d_nth [OF sq' ij(2) ib] set2d_nth [OF Cons.prems(3) ib ij(2)])
  qed
  have p1: "edgePairs T1 ! k = (if k = idx then (i, j) else edgePairs T ! k)" if "k < length (edgePairs T)" for k
    using that by (simp add: T1_def nth_list_update)
  have A: "idx' = idx + length (p # ps)" using IH by simp
  have B: "nV T' = nV T \<and> numEdges T' = numEdges T \<and> length (edgePairs T') = length (edgePairs T)
     \<and> square n (edgeIndex T')"
    using IH by (simp add: T1_def)
  have C: "edgePairs T' ! (idx + k) = (p # ps) ! k \<and>
        edgeIndex T' ! fst ((p # ps) ! k) ! snd ((p # ps) ! k) = idx + k \<and>
        edgeIndex T' ! snd ((p # ps) ! k) ! fst ((p # ps) ! k) = idx + k" if "k < length (p # ps)" for k
  proof (cases k)
    case 0
    have "edgePairs T' ! idx = edgePairs T1 ! idx" using IH by simp
    moreover have "edgeIndex T' ! i ! j = edgeIndex T1 ! i ! j" "edgeIndex T' ! j ! i = edgeIndex T1 ! j ! i"
      using IH notin ij by auto
    ultimately show ?thesis using 0 p e1 p1 ij Cons.prems(4) by simp
  next
    case (Suc k')
    then show ?thesis using IH that by simp
  qed
  have D: "\<forall>k < idx. edgePairs T' ! k = edgePairs T ! k"
    using IH p1 Cons.prems(4) by simp
  have E: "edgeIndex T' ! a ! b = edgeIndex T ! a ! b"
    if "a < n \<and> b < n \<and> (a, b) \<notin> set (p # ps) \<and> (b, a) \<notin> set (p # ps)" for a b
  proof -
    have "edgeIndex T' ! a ! b = edgeIndex T1 ! a ! b" using IH that by simp
    also have "\<dots> = edgeIndex T ! a ! b" using that e1 p by auto
    finally show ?thesis .
  qed
  show ?case using A B C D E by blast
qed

lemma all_pairs_set: "set (all_pairs n) = {(i, j). i < j \<and> j < n}"
proof -
  have "(a, b) \<in> set (all_pairs n) \<longleftrightarrow> a < b \<and> b < n" for a b
    by (auto simp: all_pairs_def image_iff)
  then show ?thesis by auto
qed

lemma distinct_rows: "distinct xs \<Longrightarrow> distinct (concat (map (\<lambda>i. map (Pair i) [i + 1..<n]) xs))"
  by (induction xs) (auto simp: distinct_map inj_on_def)

lemma all_pairs_distinct: "distinct (all_pairs n)"
  unfolding all_pairs_def by (rule distinct_rows) simp

lemma all_pairs_length: "length (all_pairs n) = n * (n - 1) div 2"
proof -
  have "length (all_pairs n) = (\<Sum>i<n. n - Suc i)"
    by (simp add: all_pairs_def length_concat comp_def sum_list_sum_nth atLeast0LessThan)
  also have "\<dots> = (\<Sum>i<n. i)" by (rule sum.nat_diff_reindex)
  also have "\<dots> = n * (n - 1) div 2"
  proof -
    have "2 * (\<Sum>i<n. i) = n * (n - 1)"
      by (induction n) (auto simp: algebra_simps)
    then show ?thesis by simp
  qed
  finally show ?thesis .
qed

lemma initEdges_tables:
  fixes n :: nat
  defines "T \<equiv> initEdges n"
  shows "nV T = n" and "numEdges T = n * (n - 1) div 2" and "edgePairs T = all_pairs n"
    and "square n (edgeIndex T)"
    and "\<And>k. k < length (all_pairs n) \<Longrightarrow>
           edgeIndex T ! fst (all_pairs n ! k) ! snd (all_pairs n ! k) = k \<and>
           edgeIndex T ! snd (all_pairs n ! k) ! fst (all_pairs n ! k) = k"
proof -
  define ne where "ne = n * (n - 1) div 2"
  define T0 where "T0 = \<lparr>nV = n, numEdges = ne,
                edgeIndex = replicate n (replicate n 0),
                edgePairs = replicate ne (0, 0)\<rparr>"
  obtain T' idx' where r: "fold (\<lambda>(i, j). initEdges_body i j) (all_pairs n) (T0, 0) = (T', idx')"
    by (cases "fold (\<lambda>(i, j). initEdges_body i j) (all_pairs n) (T0, 0)")
  have "initEdges n = fst (fold (\<lambda>(i, j). initEdges_body i j) (all_pairs n) (T0, 0))"
    unfolding initEdges_def Let_def fold_nested_pairs all_pairs_def T0_def ne_def ..
  then have T: "T = T'"
    unfolding T_def r by simp
  have sq: "square n (edgeIndex T0)" by (simp add: T0_def square_def)
  have len: "0 + length (all_pairs n) \<le> length (edgePairs T0)"
    by (simp add: T0_def ne_def all_pairs_length)
  have ord: "\<forall>(i, j) \<in> set (all_pairs n). i < j \<and> j < n" by (simp add: all_pairs_set)
  note F = initEdges_fold [OF all_pairs_distinct ord sq len r]
  show "nV T = n" "numEdges T = n * (n - 1) div 2" "square n (edgeIndex T)"
    using F by (simp_all add: T T0_def ne_def)
  have "length (edgePairs T') = length (all_pairs n)"
    using F by (simp add: T0_def ne_def all_pairs_length)
  moreover have "\<forall>k < length (all_pairs n). edgePairs T' ! k = all_pairs n ! k"
    using F by simp
  ultimately show "edgePairs T = all_pairs n"
    unfolding T by (simp add: nth_equalityI)
  show "\<And>k. k < length (all_pairs n) \<Longrightarrow>
           edgeIndex T ! fst (all_pairs n ! k) ! snd (all_pairs n ! k) = k \<and>
           edgeIndex T ! snd (all_pairs n ! k) ! fst (all_pairs n ! k) = k"
    using F unfolding T by simp
qed

lemma edgeIndex_props:
  assumes "i < j" "j < n"
  shows "edgeIndex (initEdges n) ! i ! j < numEdges (initEdges n)"
    and "edgePairs (initEdges n) ! (edgeIndex (initEdges n) ! i ! j) = (i, j)"
    and "edgeIndex (initEdges n) ! j ! i = edgeIndex (initEdges n) ! i ! j"
proof -
  have "(i, j) \<in> set (all_pairs n)" using assms by (simp add: all_pairs_set)
  then obtain k where k: "k < length (all_pairs n)" "all_pairs n ! k = (i, j)"
    by (auto simp: in_set_conv_nth)
  from initEdges_tables(5) [OF k(1)] k(2)
  have e: "edgeIndex (initEdges n) ! i ! j = k" "edgeIndex (initEdges n) ! j ! i = k" by simp_all
  show "edgeIndex (initEdges n) ! i ! j < numEdges (initEdges n)"
    using e k by (simp add: initEdges_tables(2) all_pairs_length)
  show "edgePairs (initEdges n) ! (edgeIndex (initEdges n) ! i ! j) = (i, j)"
    using e k by (simp add: initEdges_tables(3))
  show "edgeIndex (initEdges n) ! j ! i = edgeIndex (initEdges n) ! i ! j" using e by simp
qed

lemma edgePairs_props:
  assumes "idx < numEdges (initEdges n)"
  shows "\<exists>i j. edgePairs (initEdges n) ! idx = (i, j) \<and> i < j \<and> j < n \<and>
           edgeIndex (initEdges n) ! i ! j = idx"
proof -
  have k: "idx < length (all_pairs n)"
    using assms by (simp add: initEdges_tables(2) all_pairs_length)
  obtain i j where ij: "all_pairs n ! idx = (i, j)" by (cases "all_pairs n ! idx")
  have "(i, j) \<in> set (all_pairs n)" using nth_mem [OF k] ij by simp
  then have "i < j \<and> j < n" by (simp add: all_pairs_set)
  moreover have "edgeIndex (initEdges n) ! i ! j = idx"
    using initEdges_tables(5) [OF k] ij by simp
  ultimately show ?thesis using ij by (simp add: initEdges_tables(3))
qed

lemma edgeIndex_inj:
  assumes "i < j" "j < n" "i' < j'" "j' < n"
    and "edgeIndex (initEdges n) ! i ! j = edgeIndex (initEdges n) ! i' ! j'"
  shows "i = i' \<and> j = j'"
proof -
  have "(i, j) = edgePairs (initEdges n) ! (edgeIndex (initEdges n) ! i ! j)"
    using edgeIndex_props(2) [OF assms(1,2)] by (rule sym)
  also have "\<dots> = edgePairs (initEdges n) ! (edgeIndex (initEdges n) ! i' ! j')"
    by (rule arg_cong [OF assms(5)])
  also have "\<dots> = (i', j')" by (rule edgeIndex_props(2) [OF assms(3,4)])
  finally show ?thesis by (rule Pair_inject) (rule conjI)
qed

lemma hasbit_iff [simp]: "hasbit g idx \<longleftrightarrow> bit g idx"
proof -
  have "g AND push_bit idx 1 \<noteq> 0 \<longleftrightarrow> bit g idx"
    by (simp add: bit_iff_and_push_bit_not_eq_0)
  then show ?thesis by (simp add: hasbit_def)
qed

lemma bit_setbit [simp]: "bit (setbit g idx) k \<longleftrightarrow> bit g k \<or> (k = idx \<and> idx < 64)"
  by (auto simp: setbit_def bit_simps dest: bit_imp_le_length)

section \<open>The graph6 round trip\<close>

text \<open>Nested loops in general: the rows \<open>r j\<close> visited for each \<open>j\<close> of \<open>xs\<close>.\<close>

lemma fold_nested_rows:
  "fold (\<lambda>j. fold (f j) (r j)) xs s =
   fold (\<lambda>(j, i). f j i) (concat (map (\<lambda>j. map (Pair j) (r j)) xs)) s"
  by (induction xs arbitrary: s) (simp_all add: fold_map comp_def)

definition col_pairs :: "nat \<Rightarrow> (nat \<times> nat) list" where
  "col_pairs n = concat (map (\<lambda>j. map (Pair j) [0..<j]) [1..<n])"

lemma col_pairs_set: "set (col_pairs n) = {(j, i). i < j \<and> j < n}"
proof -
  have "(b, a) \<in> set (col_pairs n) \<longleftrightarrow> a < b \<and> b < n" for a b
    by (auto simp: col_pairs_def image_iff)
  then show ?thesis by auto
qed

lemma graph_bits_eq:
  "graph_bits T g = map (\<lambda>(j, i). if hasbit g (edgeIndex T ! i ! j) then 1 else 0) (col_pairs (nV T))"
  by (simp add: graph_bits_def col_pairs_def map_concat comp_def)

lemma parse_fold_bits:
  "fold (\<lambda>(j, i). parseGraph6_body T bits j i) ps (g0, k0) = (g', k') \<Longrightarrow>
   k' = k0 + length ps \<and>
   (\<forall>b. bit g' b \<longleftrightarrow> bit g0 b \<or>
      (\<exists>m < length ps. k0 + m < length bits \<and> bits ! (k0 + m) = 1 \<and>
          edgeIndex T ! snd (ps ! m) ! fst (ps ! m) = b \<and> b < 64))"
proof (induction ps arbitrary: g0 k0)
  case Nil
  then show ?case by simp
next
  case (Cons p ps)
  obtain j i where p: "p = (j, i)" by (cases p)
  define g1 where "g1 = (if k0 < length bits \<and> bits ! k0 = 1 then setbit g0 (edgeIndex T ! i ! j) else g0)"
  have "fold (\<lambda>(j, i). parseGraph6_body T bits j i) ps (g1, k0 + 1) = (g', k')"
    using Cons.prems by (simp add: p parseGraph6_body_def g1_def)
  note IH = Cons.IH [OF this]
  have k: "k' = k0 + length (p # ps)" using IH by simp
  have "bit g' b \<longleftrightarrow> bit g0 b \<or>
      (\<exists>m < length (p # ps). k0 + m < length bits \<and> bits ! (k0 + m) = 1 \<and>
          edgeIndex T ! snd ((p # ps) ! m) ! fst ((p # ps) ! m) = b \<and> b < 64)" (is "?L \<longleftrightarrow> ?A \<or> ?R") for b
  proof -
    have R: "?R \<longleftrightarrow> (k0 < length bits \<and> bits ! k0 = 1 \<and> edgeIndex T ! i ! j = b \<and> b < 64) \<or>
        (\<exists>m < length ps. k0 + 1 + m < length bits \<and> bits ! (k0 + 1 + m) = 1 \<and>
          edgeIndex T ! snd (ps ! m) ! fst (ps ! m) = b \<and> b < 64)"
      by (auto simp: p less_Suc_eq_0_disj)
    have "bit g1 b \<longleftrightarrow> bit g0 b \<or> (k0 < length bits \<and> bits ! k0 = 1 \<and> edgeIndex T ! i ! j = b \<and> b < 64)"
      by (auto simp: g1_def)
    then show ?thesis using IH R by auto
  qed
  with k show ?case by blast
qed


lemma pad6_shape:
  "\<exists>r. pad6 bits = bits @ replicate r (0 :: byte) \<and> length (pad6 bits) mod 6 = 0"
proof (induction bits rule: pad6.induct)
  case (1 bits)
  show ?case
  proof (cases "length bits mod 6 \<noteq> 0")
    case True
    have e: "pad6 bits = pad6 (bits @ [0])" using True by (subst pad6.simps) simp
    from 1 [OF True] show ?thesis
    proof (elim exE conjE)
      fix r
      assume "pad6 (bits @ [0]) = (bits @ [0]) @ replicate r 0"
        and "length (pad6 (bits @ [0])) mod 6 = 0"
      then have "pad6 bits = bits @ replicate (Suc r) 0 \<and> length (pad6 bits) mod 6 = 0"
        unfolding e by simp
      then show ?thesis by (rule exI)
    qed
  next
    case False
    then have "pad6 bits = bits" by (subst pad6.simps) simp
    with False have "pad6 bits = bits @ replicate 0 0 \<and> length (pad6 bits) mod 6 = 0" by simp
    then show ?thesis by (rule exI)
  qed
qed

lemma decode_chunk:
  assumes "b5 \<in> {0, 1}" "b4 \<in> {0, 1}" "b3 \<in> {0, 1}" "b2 \<in> {0, 1}" "b1 \<in> {0, 1}" "b0 \<in> {0, 1}"
  shows "decode_bits [pack6 (b5 # b4 # b3 # b2 # b1 # b0 # rest) 0 + 63] = [b5, b4, b3, b2, b1, b0 :: byte]"
  using assms by (elim insertE emptyE; simp add: decode_bits_def pack6_def)


lemma decode_bits_Cons: "decode_bits (c # cs) = decode_bits [c] @ decode_bits cs"
  by (simp add: decode_bits_def)

lemma nth_skip6: "(b5 # b4 # b3 # b2 # b1 # b0 # rest) ! (6 * Suc k + i) = rest ! (6 * k + i)"
proof -
  have "6 * Suc k + i = Suc (Suc (Suc (Suc (Suc (Suc (6 * k + i))))))" by simp
  then show ?thesis by simp
qed

lemma pack6_skip6: "pack6 (b5 # b4 # b3 # b2 # b1 # b0 # rest) (6 * Suc k) = pack6 rest (6 * k)"
  using nth_skip6 [of b5 b4 b3 b2 b1 b0 rest k 0] nth_skip6 [of b5 b4 b3 b2 b1 b0 rest k 1]
    nth_skip6 [of b5 b4 b3 b2 b1 b0 rest k 2] nth_skip6 [of b5 b4 b3 b2 b1 b0 rest k 3]
    nth_skip6 [of b5 b4 b3 b2 b1 b0 rest k 4] nth_skip6 [of b5 b4 b3 b2 b1 b0 rest k 5]
  unfolding pack6_def by simp

lemma decode_pack:
  "length bits = 6 * m \<Longrightarrow> set bits \<subseteq> {0, 1} \<Longrightarrow>
   decode_bits (map (\<lambda>k. pack6 bits (6 * k) + 63) [0..<m]) = bits"
proof (induction m arbitrary: bits)
  case 0
  then show ?case by (simp add: decode_bits_def)
next
  case (Suc m)
  from Suc.prems(1) have "length bits = Suc (Suc (Suc (Suc (Suc (Suc (6 * m))))))" by simp
  then obtain b5 b4 b3 b2 b1 b0 rest where
    bits: "bits = b5 # b4 # b3 # b2 # b1 # b0 # rest" and len: "length rest = 6 * m"
    by (auto simp: length_Suc_conv)
  have in01: "b5 \<in> {0, 1}" "b4 \<in> {0, 1}" "b3 \<in> {0, 1}" "b2 \<in> {0, 1}" "b1 \<in> {0, 1}" "b0 \<in> {0, 1}"
    and rest01: "set rest \<subseteq> {0, 1}"
    using Suc.prems(2) by (auto simp: bits)
  have u: "[0..<Suc m] = 0 # map Suc [0..<m]"
    by (simp add: upt_conv_Cons map_Suc_upt del: upt_Suc)
  have "map (\<lambda>k. pack6 bits (6 * k) + 63) [0..<Suc m] =
     map (\<lambda>k. pack6 bits (6 * k) + 63) (0 # map Suc [0..<m])"
    by (simp only: u)
  also have "\<dots> = (pack6 bits (6 * 0) + 63) # map (\<lambda>k. pack6 bits (6 * Suc k) + 63) [0..<m]"
    by (simp only: list.map map_map comp_def)
  also have "\<dots> = (pack6 bits 0 + 63) # map (\<lambda>k. pack6 rest (6 * k) + 63) [0..<m]"
    by (simp only: bits pack6_skip6 mult_0_right)
  finally have "decode_bits (map (\<lambda>k. pack6 bits (6 * k) + 63) [0..<Suc m]) =
      decode_bits [pack6 bits 0 + 63] @
      decode_bits (map (\<lambda>k. pack6 rest (6 * k) + 63) [0..<m])"
    by (simp only: decode_bits_Cons [symmetric])
  also have "\<dots> = [b5, b4, b3, b2, b1, b0] @ rest"
    unfolding bits by (simp only: decode_chunk [OF in01] Suc.IH [OF len rest01])
  finally show ?case by (simp add: bits)
qed


lemma pack6_range:
  assumes "bits ! i \<in> {0, 1}" "bits ! (i + 1) \<in> {0, 1}" "bits ! (i + 2) \<in> {0, 1}"
    "bits ! (i + 3) \<in> {0, 1}" "bits ! (i + 4) \<in> {0, 1}" "bits ! (i + 5) \<in> {0, 1}"
  shows "63 \<le> pack6 bits i + 63 \<and> pack6 bits i + 63 \<le> 126"
  using assms unfolding pack6_def by (elim insertE emptyE; simp)

lemma graph_bits_01: "set (graph_bits T g) \<subseteq> {0, 1}"
  by (auto simp: graph_bits_def)

lemma pad6_01: "set bits \<subseteq> {0, 1} \<Longrightarrow> set (pad6 bits) \<subseteq> {0, 1}"
  using pad6_shape [of bits] by auto

lemma TrimSpace_ascii_id:
  assumes "\<forall>c \<in> set s. 63 \<le> c \<and> c \<le> 126"
  shows "TrimSpace_ascii s = s"
proof -
  have n: "\<not> asciiSpace c" if "c \<in> set s" for c
    using assms that by (auto simp: asciiSpace_def)
  have d: "dropWhile asciiSpace xs = xs" if "set xs \<subseteq> set s" for xs
    using n that by (cases xs) auto
  have "dropWhile asciiSpace s = s" "dropWhile asciiSpace (rev s) = rev s"
    by (rule d, simp)+
  then show ?thesis by (simp add: TrimSpace_ascii_def)
qed

lemma parseGraph6_bits:
  assumes line: "TrimSpace ln = ch # cs" and ch: "uint ch - 63 = int n"
    and bits: "decode_bits cs = pb" and pb: "pb = graph_bits (initEdges n) g @ zs"
  shows "bit (parseGraph6 TrimSpace (initEdges n) ln) b \<longleftrightarrow> bit g b \<and> b < numEdges (initEdges n)"
proof -
  define T where "T = initEdges n"
  define cp where "cp = col_pairs n"
  have nV: "nV T = n" by (simp add: T_def initEdges_tables(1))
  obtain g' k' where r: "fold (\<lambda>(j, i). parseGraph6_body T pb j i) cp (0, 0) = (g', k')"
    by (cases "fold (\<lambda>(j, i). parseGraph6_body T pb j i) cp (0, 0)")
  have P: "parseGraph6 TrimSpace T ln = g'"
    using line ch bits r
    by (simp add: parseGraph6_def Let_def nV fold_nested_rows cp_def col_pairs_def)
  have gb: "graph_bits T g = map (\<lambda>(j, i). if bit g (edgeIndex T ! i ! j) then 1 else 0) cp"
    by (simp add: graph_bits_eq nV cp_def)
  have at: "m < length pb \<and> (pb ! m = 1 \<longleftrightarrow> bit g (edgeIndex T ! snd (cp ! m) ! fst (cp ! m)))"
    if "m < length cp" for m
    using that by (simp add: pb T_def [symmetric] gb nth_append case_prod_beta)
  have "bit g' b \<longleftrightarrow>
      (\<exists>m < length cp. m < length pb \<and> pb ! m = 1 \<and>
          edgeIndex T ! snd (cp ! m) ! fst (cp ! m) = b \<and> b < 64)"
    using parse_fold_bits [OF r] by simp
  also have "\<dots> \<longleftrightarrow> (\<exists>m < length cp. bit g b \<and> edgeIndex T ! snd (cp ! m) ! fst (cp ! m) = b)"
  proof -
    have "(m < length pb \<and> pb ! m = 1 \<and> edgeIndex T ! snd (cp ! m) ! fst (cp ! m) = b \<and> b < 64)
        \<longleftrightarrow> (bit g b \<and> edgeIndex T ! snd (cp ! m) ! fst (cp ! m) = b)" if "m < length cp" for m
      using at [OF that] bit_imp_le_length [of g b] by auto
    then show ?thesis by blast
  qed
  also have "\<dots> \<longleftrightarrow> bit g b \<and> (\<exists>p \<in> set cp. edgeIndex T ! snd p ! fst p = b)"
    unfolding Bex_def in_set_conv_nth by blast
  also have "(\<exists>p \<in> set cp. edgeIndex T ! snd p ! fst p = b) \<longleftrightarrow> b < numEdges T"
  proof
    assume "\<exists>p \<in> set cp. edgeIndex T ! snd p ! fst p = b"
    then obtain j i where "i < j" "j < n" "edgeIndex T ! i ! j = b"
      by (auto simp: cp_def col_pairs_set)
    then show "b < numEdges T" using edgeIndex_props(1) [of i j n] by (simp add: T_def)
  next
    assume "b < numEdges T"
    from edgePairs_props [OF this [unfolded T_def]] obtain i j where
      "i < j" "j < n" "edgeIndex T ! i ! j = b" by (auto simp: T_def)
    then have "(j, i) \<in> set cp \<and> edgeIndex T ! snd (j, i) ! fst (j, i) = b"
      by (simp add: cp_def col_pairs_set)
    then show "\<exists>p \<in> set cp. edgeIndex T ! snd p ! fst p = b" by blast
  qed
  finally show ?thesis using P unfolding T_def by simp
qed


lemma uint_nplus63: "n < 63 \<Longrightarrow> uint (of_nat (n + 63) :: byte) - 63 = int n"
proof -
  assume "n < 63"
  moreover have "unat (of_nat (n + 63) :: byte) = (n + 63) mod 2 ^ LENGTH(8)"
    by (rule unat_of_nat)
  ultimately have "unat (of_nat (n + 63) :: byte) = n + 63"
    by simp
  then have "uint (of_nat (n + 63) :: byte) = int (n + 63)"
    by (metis uint_nat)
  then show ?thesis by simp
qed

lemma nplus63_range: "n < 63 \<Longrightarrow> 63 \<le> (of_nat (n + 63) :: byte) \<and> (of_nat (n + 63) :: byte) \<le> 126"
proof -
  assume n: "n < 63"
  moreover have "unat (of_nat (n + 63) :: byte) = (n + 63) mod 2 ^ LENGTH(8)"
    by (rule unat_of_nat)
  ultimately have u: "unat (of_nat (n + 63) :: byte) = n + 63"
    by simp
  show ?thesis unfolding word_le_nat_alt u using n by simp
qed

lemma toGraph6_range:
  assumes "n < 63"
  shows "\<forall>c \<in> set (toGraph6 (initEdges n) g). 63 \<le> c \<and> c \<le> 126"
proof -
  define pb where "pb = pad6 (graph_bits (initEdges n) g)"
  have s01: "set pb \<subseteq> {0, 1}" unfolding pb_def by (rule pad6_01 [OF graph_bits_01])
  have l6: "length pb mod 6 = 0" unfolding pb_def using pad6_shape by blast
  have "63 \<le> pack6 pb (6 * k) + 63 \<and> pack6 pb (6 * k) + 63 \<le> 126"
    if "k < (length pb + 5) div 6" for k
  proof -
    have "6 * k + 5 < length pb" using that l6 by presburger
    then have "pb ! (6 * k + i) \<in> {0, 1}" if "i \<le> 5" for i
      using s01 that by (meson le_less_trans add_le_cancel_left nth_mem subsetD)
    from this [of 0] this [of 1] this [of 2] this [of 3] this [of 4] this [of 5]
    show ?thesis by (intro pack6_range) simp_all
  qed
  then show ?thesis
    using nplus63_range [OF assms]
    by (auto simp: toGraph6_def Let_def pb_def [symmetric] initEdges_tables(1))
qed

text \<open>
  Claim C6. For a graph \<open>g\<close> on the run's \<open>n\<close> vertices, that is an edge mask with no bit
  at or above \<open>numEdges\<close>, decoding the line that \<open>toGraph6\<close> writes gives \<open>g\<close> back.
  \<open>n < 63\<close> is the range of the one-character size prefix that the encoder writes, and
  \<open>TrimSpace\<close> is any function that leaves a line of printable graph6 characters
  (bytes 63 to 126) as it is, as the library function does.
\<close>

theorem graph6_round_trip:
  assumes n: "n < 63"
    and g: "take_bit (numEdges (initEdges n)) g = g"
    and trim: "\<And>s. \<forall>c \<in> set s. 63 \<le> c \<and> c \<le> 126 \<Longrightarrow> TrimSpace s = s"
  shows "parseGraph6 TrimSpace (initEdges n) (toGraph6 (initEdges n) g) = g"
proof -
  define T where "T = initEdges n"
  define pb where "pb = pad6 (graph_bits T g)"
  define cs where "cs = map (\<lambda>k. pack6 pb (6 * k) + 63) [0..<(length pb + 5) div 6]"
  have line: "toGraph6 T g = (of_nat (n + 63) :: byte) # cs"
    by (simp add: toGraph6_def Let_def pb_def cs_def T_def initEdges_tables(1))
  have t: "TrimSpace (toGraph6 T g) = (of_nat (n + 63) :: byte) # cs"
    using trim [OF toGraph6_range [OF n, of g]] line by (simp add: T_def)
  have l6: "length pb mod 6 = 0" unfolding pb_def using pad6_shape by blast
  then have m: "(length pb + 5) div 6 = length pb div 6" "length pb = 6 * (length pb div 6)"
    by presburger+
  have s01: "set pb \<subseteq> {0, 1}" unfolding pb_def by (rule pad6_01 [OF graph_bits_01])
  have dec: "decode_bits cs = pb"
    unfolding cs_def m(1) by (rule decode_pack [OF m(2) s01])
  obtain zs where zs: "pb = graph_bits (initEdges n) g @ zs"
    using pad6_shape [of "graph_bits T g"] by (auto simp: pb_def T_def)
  have "bit (parseGraph6 TrimSpace T (toGraph6 T g)) b \<longleftrightarrow> bit g b" for b
  proof -
    have "bit (parseGraph6 TrimSpace T (toGraph6 T g)) b \<longleftrightarrow> bit g b \<and> b < numEdges T"
      unfolding T_def
      by (rule parseGraph6_bits [where TrimSpace = TrimSpace and ln = "toGraph6 (initEdges n) g",
            OF t [unfolded T_def] uint_nplus63 [OF n] dec zs])
    moreover have "bit g b \<Longrightarrow> b < numEdges T"
      using g by (metis T_def bit_take_bit_iff)
    ultimately show ?thesis by blast
  qed
  then show ?thesis unfolding T_def by (rule bit_eqI)
qed

theorem graph6_round_trip_witness:
  "parseGraph6 TrimSpace_ascii (initEdges 4) (toGraph6 (initEdges 4) 37) = 37"
proof -
  have "take_bit (numEdges (initEdges 4)) (37 :: Graph) = 37"
    by (simp add: initEdges_tables(2))
  then show ?thesis
    using graph6_round_trip [where TrimSpace = TrimSpace_ascii and n = 4 and g = 37]
      TrimSpace_ascii_id by simp
qed

subsection \<open>Lines of the input file\<close>

lemma scan_lines_Nil: "scan_lines [] = []"
  by (subst scan_lines.simps) simp

lemma scan_lines_line:
  assumes "10 \<notin> set l"
  shows "scan_lines (l @ 10 # rest) =
     (if MaxScanTokenSize \<le> length l then [] else dropCR l # scan_lines rest)"
proof -
  have t: "takeWhile (\<lambda>c. c \<noteq> 10) (l @ 10 # rest) = l"
    using assms by (induction l) auto
  have d: "dropWhile (\<lambda>c. c \<noteq> 10) (l @ 10 # rest) = 10 # rest"
    using assms by (induction l) auto
  show ?thesis
    by (subst scan_lines.simps) (simp add: t d Let_def)
qed

lemma scan_lines_last:
  assumes "10 \<notin> set l" "l \<noteq> []"
  shows "scan_lines l = (if MaxScanTokenSize \<le> length l then [] else [dropCR l])"
proof -
  have t: "takeWhile (\<lambda>c. c \<noteq> 10) l = l" using assms(1) by (induction l) auto
  have d: "dropWhile (\<lambda>c. c \<noteq> 10) l = []" using assms(1) by (induction l) auto
  show ?thesis
    by (subst scan_lines.simps) (simp add: t d Let_def assms(2))
qed

lemma scan_lines_long:
  assumes "10 \<notin> set l" "MaxScanTokenSize \<le> length l"
  shows "scan_lines (l @ rest) = []"
proof -
  have "takeWhile (\<lambda>c. c \<noteq> 10) (l @ rest) = l @ takeWhile (\<lambda>c. c \<noteq> 10) rest"
    using assms(1) by (induction l) auto
  then have "MaxScanTokenSize \<le> length (takeWhile (\<lambda>c. c \<noteq> 10) (l @ rest))"
    using assms(2) by simp
  then show ?thesis by (subst scan_lines.simps) (simp add: Let_def)
qed

text \<open>A prefix of whole lines is the empty prefix or one that ends in a newline.\<close>

lemma whole_lines_split:
  assumes "before \<noteq> []" "last before = (10 :: byte)"
  shows "\<exists>l r. before = l @ 10 # r \<and> 10 \<notin> set l \<and> (r = [] \<or> last r = 10)"
proof -
  define l where "l = takeWhile (\<lambda>c. c \<noteq> 10) before"
  define d where "d = dropWhile (\<lambda>c. c \<noteq> 10) before"
  have b: "before = l @ d" by (simp add: l_def d_def)
  have "10 \<in> set before" using assms by (metis last_in_set)
  then have dn: "d \<noteq> []" unfolding d_def by (simp add: dropWhile_eq_Nil_conv) 
  then have "hd d = 10" unfolding d_def using hd_dropWhile [of "\<lambda>c. c \<noteq> 10" before] by auto
  then obtain r where r: "d = 10 # r" using dn by (cases d) auto
  have l: "10 \<notin> set l" unfolding l_def using set_takeWhileD by fastforce
  have "r = [] \<or> last r = 10" using assms(2) b r by (cases "r = []") auto
  with b r l show ?thesis by blast
qed

lemma scan_lines_prefix:
  assumes "before = [] \<or> last before = 10"
    and "fold f (scan_lines x) = fold f (scan_lines y)"
  shows "fold f (scan_lines (before @ x)) s = fold f (scan_lines (before @ y)) s"
  using assms(1)
proof (induction before arbitrary: s rule: length_induct)
  case (1 before)
  show ?case
  proof (cases "before = []")
    case True
    then show ?thesis using assms(2) by simp
  next
    case False
    with 1(2) have "last before = 10" by simp
    from whole_lines_split [OF False this] obtain l r where
      b: "before = l @ 10 # r" and l: "10 \<notin> set l" and r: "r = [] \<or> last r = 10" by blast
    have "length r < length before" by (simp add: b)
    with 1(1) r have ih: "fold f (scan_lines (r @ x)) t = fold f (scan_lines (r @ y)) t" for t
      by blast
    show ?thesis
      by (simp add: b scan_lines_line [OF l] ih)
  qed
qed

lemma parse_wrong_n:
  assumes "TrimSpace line = [] \<or> uint (TrimSpace line ! 0) - 63 \<noteq> int (nV T)"
  shows "parseGraph6 TrimSpace T line = 0"
  using assms by (auto simp: parseGraph6_def Let_def)

lemma read_line_wrong_n:
  assumes "TrimSpace line = [] \<or> uint (TrimSpace line ! 0) - 63 \<noteq> int (nV T)"
  shows "read_line TrimSpace T line = id"
proof
  fix s show "read_line TrimSpace T line s = id s"
    using parse_wrong_n [of TrimSpace line T] assms by (cases s) (simp add: read_line_def)
qed

text \<open>
  Claim C9 as the code has it. A line of the file, shorter than the scanner's 65536
  bytes, that is empty after trimming or whose first character encodes a vertex count
  other than \<open>n\<close>: \<open>parseGraph6\<close> gives the zero sentinel, the loop leaves the graphs read
  and \<open>count\<close> as they were, and the file is read as if the line were not in it, whether
  the line stands before other lines or is the last one without a newline. The lines
  before it are whole lines, \<open>before\<close> ending in a newline or being empty. No counter
  records the skipped line.
\<close>

theorem wrong_n_line_skipped:
  assumes wrong: "TrimSpace (dropCR line) = [] \<or>
        uint (TrimSpace (dropCR line) ! 0) - 63 \<noteq> int (nV T)"
    and line: "10 \<notin> set line" "length line < MaxScanTokenSize"
    and before: "before = [] \<or> last before = 10"
  shows "parseGraph6 TrimSpace T (dropCR line) = 0 \<and>
    read_line TrimSpace T (dropCR line) st = st \<and>
    read_file TrimSpace T (before @ line @ 10 # after) = read_file TrimSpace T (before @ after) \<and>
    read_file TrimSpace T (before @ line) = read_file TrimSpace T before"
proof -
  have r: "read_line TrimSpace T (dropCR line) = id"
    using read_line_wrong_n [of TrimSpace "dropCR line" T] wrong by blast
  have a: "fold (read_line TrimSpace T) (scan_lines (line @ 10 # after)) =
      fold (read_line TrimSpace T) (scan_lines after)"
    using line(2) by (simp add: scan_lines_line [OF line(1)] r)
  have b: "fold (read_line TrimSpace T) (scan_lines line) =
      fold (read_line TrimSpace T) (scan_lines [])"
  proof (cases "line = []")
    case True
    then show ?thesis by simp
  next
    case False
    then show ?thesis
      using line(2) by (simp add: scan_lines_last [OF line(1)] scan_lines_Nil r)
  qed
  have "read_file TrimSpace T (before @ line @ 10 # after) = read_file TrimSpace T (before @ after)"
    unfolding read_file_def by (rule scan_lines_prefix [OF before a])
  moreover have "read_file TrimSpace T (before @ line) = read_file TrimSpace T before"
    unfolding read_file_def using scan_lines_prefix [OF before b, of "([], 0)"] by simp
  ultimately show ?thesis
    using parse_wrong_n [of TrimSpace "dropCR line" T] wrong r by simp
qed

text \<open>
  A line of 65536 bytes or more ends the reading: whatever follows it, the graphs read
  are those of the lines before it.
\<close>

lemma long_line_ends_reading:
  assumes line: "10 \<notin> set line" "MaxScanTokenSize \<le> length line"
    and before: "before = [] \<or> last before = 10"
  shows "read_file TrimSpace T (before @ line @ after) = read_file TrimSpace T before"
proof -
  have "fold (read_line TrimSpace T) (scan_lines (line @ after)) =
      fold (read_line TrimSpace T) (scan_lines [])"
    by (simp add: scan_lines_long [OF line] scan_lines_Nil)
  from scan_lines_prefix [OF before this, of "([], 0)"] show ?thesis
    by (simp add: read_file_def)
qed

lemma read_file_example:
  "read_file TrimSpace_ascii (initEdges 4) [67, 114, 10] = ([51], 1)"
proof -
  have s: "scan_lines ([67, 114] @ 10 # []) = [[67, 114]]"
    by (subst scan_lines_line) (simp_all add: MaxScanTokenSize_def dropCR_def scan_lines_Nil)
  have "parseGraph6 TrimSpace_ascii (initEdges 4) [67, 114] = 51" by code_simp
  then show ?thesis using s by (simp add: read_file_def read_line_def)
qed

theorem wrong_n_line_skipped_witness:
  "parseGraph6 TrimSpace_ascii (initEdges 4) (dropCR [68, 63, 13]) = 0 \<and>
   read_file TrimSpace_ascii (initEdges 4) ([67, 99, 10] @ [68, 63, 13] @ 10 # [67, 114, 10]) =
   read_file TrimSpace_ascii (initEdges 4) ([67, 99, 10] @ [67, 114, 10])"
proof -
  have h: "TrimSpace_ascii (dropCR [68, 63, 13]) = [] \<or>
      uint (TrimSpace_ascii (dropCR [68, 63, 13]) ! 0) - 63 \<noteq> int (nV (initEdges 4))"
    by (simp add: dropCR_def TrimSpace_ascii_def asciiSpace_def initEdges_tables(1))
  have l: "10 \<notin> set [68, 63, 13 :: byte]" "length [68, 63, 13 :: byte] < MaxScanTokenSize"
    by (simp_all add: MaxScanTokenSize_def)
  have b: "[67, 99, 10 :: byte] = [] \<or> last [67, 99, 10 :: byte] = 10" by simp
  show ?thesis
    using wrong_n_line_skipped [where TrimSpace = TrimSpace_ascii and line = "[68, 63, 13]"
          and T = "initEdges 4" and before = "[67, 99, 10]" and after = "[67, 114, 10]",
          OF h l b]
    by blast
qed

text \<open>
  The claim as stated has the skip tracked with a counter, and the lines after a skipped
  line read. The loop has one counter, \<open>count\<close>, and it counts the graphs kept: after a
  wrong-\<open>n\<close> line the state is the initial one, with \<open>count\<close> still 0. And after a
  wrong-\<open>n\<close> line of 65536 bytes the graph of the next line, which the file of that
  line alone yields, is not read.
\<close>

theorem skip_counter_counterexample:
  "read_file TrimSpace_ascii (initEdges 4) [68, 63, 10] = ([], 0) \<and>
   read_file TrimSpace_ascii (initEdges 4) (replicate 65536 68 @ [10, 67, 114, 10]) = ([], 0) \<and>
   read_file TrimSpace_ascii (initEdges 4) [67, 114, 10] = ([51], 1)"
proof -
  have s: "scan_lines ([68, 63] @ 10 # []) = [[68, 63]]"
    by (subst scan_lines_line) (simp_all add: MaxScanTokenSize_def dropCR_def scan_lines_Nil)
  have "read_file TrimSpace_ascii (initEdges 4) [68, 63, 10] = ([], 0)"
    using s by (simp add: read_file_def read_line_def parseGraph6_def TrimSpace_ascii_def
        asciiSpace_def initEdges_tables(1))
  moreover have "read_file TrimSpace_ascii (initEdges 4) ([] @ replicate 65536 68 @ [10, 67, 114, 10]) =
      read_file TrimSpace_ascii (initEdges 4) []"
    by (rule long_line_ends_reading) (simp_all add: MaxScanTokenSize_def)
  moreover have "read_file TrimSpace_ascii (initEdges 4) [] = ([], 0)"
    by (simp add: read_file_def scan_lines_Nil)
  ultimately show ?thesis using read_file_example by simp
qed

section \<open>Vertex relabelings (filter\_maximal.go, canonicalize.go)\<close>

text \<open>
  \<open>arr[i], arr[j] = arr[j], arr[i]\<close>: both right-hand sides are read before either
  element is written.
\<close>

definition swap :: "nat list \<Rightarrow> nat \<Rightarrow> nat \<Rightarrow> nat list" where
  "swap arr i j = arr[i := arr ! j, j := arr ! i]"

text \<open>
  The closure \<open>generate\<close> of \<open>permutations\<close> (Heap's algorithm). Its captured variables
  \<open>arr\<close> and \<open>result\<close> are the state; \<open>copy(perm, arr)\<close> appends the current value of
  \<open>arr\<close>. For \<open>k = 0\<close> the loop body never runs.
\<close>

fun generate :: "nat \<Rightarrow> nat list \<times> nat list list \<Rightarrow> nat list \<times> nat list list" where
  "generate k st =
     (if k = 1 then (fst st, snd st @ [fst st])
      else fold (\<lambda>i st.
                   let st' = generate (k - 1) st
                   in (if k mod 2 = 0 then swap (fst st') i (k - 1) else swap (fst st') 0 (k - 1),
                       snd st'))
                [0..<k] st)"

declare generate.simps [simp del]

definition permutations :: "nat \<Rightarrow> nat list list" where
  "permutations n = (if n = 0 then [[]] else snd (generate n ([0..<n], [])))"

text \<open>\<open>allPerms\<close>, which \<open>initEdges\<close> of filter\_maximal.go fills with \<open>permutations(n)\<close>.\<close>

definition allPerms :: "tables \<Rightarrow> nat list list" where
  "allPerms T = permutations (nV T)"

text \<open>
  The inner loop shared by \<open>isIsomorphicSubgraphOf\<close> and \<open>canonical\<close>: every edge of \<open>g\<close>
  is sent to the edge between the images of its end points.
\<close>

definition relabel_step :: "tables \<Rightarrow> nat list \<Rightarrow> Graph \<Rightarrow> nat \<Rightarrow> Graph \<Rightarrow> Graph" where
  "relabel_step T perm g idx relabeled =
     (if hasbit g idx then
        let (i, j) = edgePairs T ! idx;
            ni = perm ! i;
            nj = perm ! j;
            (ni, nj) = (if ni > nj then (nj, ni) else (ni, nj))
        in setbit relabeled (edgeIndex T ! ni ! nj)
      else relabeled)"

definition relabel :: "tables \<Rightarrow> nat list \<Rightarrow> Graph \<Rightarrow> Graph" where
  "relabel T perm g = fold (relabel_step T perm g) [0..<numEdges T] 0"

fun isIsomorphicSubgraphOf_loop :: "tables \<Rightarrow> Graph \<Rightarrow> Graph \<Rightarrow> nat list list \<Rightarrow> bool" where
  "isIsomorphicSubgraphOf_loop T g other [] = False"
| "isIsomorphicSubgraphOf_loop T g other (perm # perms) =
     (let relabeled = relabel T perm g
      in if relabeled AND other = relabeled then True
         else isIsomorphicSubgraphOf_loop T g other perms)"

definition isIsomorphicSubgraphOf :: "tables \<Rightarrow> Graph \<Rightarrow> Graph \<Rightarrow> bool" where
  "isIsomorphicSubgraphOf T g other = isIsomorphicSubgraphOf_loop T g other (allPerms T)"

text \<open>
  The filter of \<open>main\<close> in filter\_maximal.go: \<open>isSubgraph\<close> is the inner loop over the
  graphs accepted so far, \<open>filter_maximal\<close> the outer loop over the sorted pool.
\<close>

fun isSubgraph :: "tables \<Rightarrow> Graph \<Rightarrow> Graph list \<Rightarrow> bool" where
  "isSubgraph T g [] = False"
| "isSubgraph T g (m # maximal) =
     (if isIsomorphicSubgraphOf T g m then True else isSubgraph T g maximal)"

definition filter_maximal :: "tables \<Rightarrow> Graph list \<Rightarrow> Graph list" where
  "filter_maximal T allGraphs =
     fold (\<lambda>g maximal. if \<not> isSubgraph T g maximal then maximal @ [g] else maximal) allGraphs []"

text \<open>
  \<open>Graph.canonical\<close>: the same enumeration, with the relabelled mask compared against
  \<open>best\<close> at each leaf. The state is \<open>perm\<close> and \<open>best\<close>.
\<close>

fun canonical_generate :: "tables \<Rightarrow> Graph \<Rightarrow> nat \<Rightarrow> nat list \<times> Graph \<Rightarrow> nat list \<times> Graph" where
  "canonical_generate T g k st =
     (if k = 1 then
        (let relabeled = relabel T (fst st) g
         in (fst st, if relabeled < snd st then relabeled else snd st))
      else fold (\<lambda>i st.
                   let st' = canonical_generate T g (k - 1) st
                   in (if k mod 2 = 0 then swap (fst st') i (k - 1) else swap (fst st') 0 (k - 1),
                       snd st'))
                [0..<k] st)"

declare canonical_generate.simps [simp del]

definition canonical :: "tables \<Rightarrow> Graph \<Rightarrow> Graph" where
  "canonical T g = snd (canonical_generate T g (nV T) ([0..<nV T], g))"

section \<open>Heap's algorithm enumerates every permutation\<close>

text \<open>
  \<open>heap_idx k m j\<close> is the index of the original array whose element stands at position
  \<open>j\<close> after \<open>m\<close> rounds of the loop of \<open>generate k\<close>: for odd \<open>k\<close> each round rotates the
  first \<open>k\<close> elements by one, for even \<open>k\<close> round \<open>i\<close> swaps positions \<open>i\<close> and \<open>k - 1\<close>.
\<close>

definition heap_idx :: "nat \<Rightarrow> nat \<Rightarrow> nat \<Rightarrow> nat" where
  "heap_idx k m j =
     (if k \<le> j then j
      else if odd k then (j + m * (k - 1)) mod k
      else if min m (k - 1) = 0 then j
      else if j = 0 then k - 1
      else if j < min m (k - 1) then j - 1
      else if j = k - 1 then min m (k - 1) - 1
      else j)"

definition arr_at :: "nat \<Rightarrow> nat \<Rightarrow> nat list \<Rightarrow> nat list" where
  "arr_at k m A = map (\<lambda>j. A ! heap_idx k m j) [0..<length A]"

definition tau :: "nat \<Rightarrow> nat \<Rightarrow> nat \<Rightarrow> nat" where
  "tau k m x =
     (let s = (if k mod 2 = 0 then m else 0)
      in if x = k - 1 then s else if x = s then k - 1 else x)"



lemma heap_idx_final:
  assumes "1 \<le> k"
  shows "heap_idx k k j = (if even k \<and> j < k then (if j = 0 then k - 1 else j - 1) else j)"
proof (cases "odd k \<and> j < k")
  case True
  then have "(j + k * (k - 1)) mod k = j" by simp
  with True show ?thesis by (simp add: heap_idx_def)
next
  case False
  with assms show ?thesis by (auto simp: heap_idx_def min_def)
qed

lemma heap_idx_0: "heap_idx k 0 j = j"
  by (simp add: heap_idx_def)

lemma heap_idx_less: "j < k \<Longrightarrow> heap_idx k m j < k"
  by (auto simp: heap_idx_def min_def)

lemma heap_idx_ge: "k \<le> j \<Longrightarrow> heap_idx k m j = j"
  by (simp add: heap_idx_def)


lemma idx_step_odd:
  assumes "2 \<le> k" "odd k"
  shows "heap_idx k m (heap_idx (k - 1) (k - 1) (tau k m x)) = heap_idx k (Suc m) x"
proof (cases "x < k")
  case False
  have ev: "even (k - 1)" "k mod 2 \<noteq> 0" using assms by (auto simp: odd_iff_mod_2_eq_one)
  have "tau k m x = x" using False assms ev by (simp add: tau_def)
  moreover have "heap_idx (k - 1) (k - 1) x = x" using False assms by (simp add: heap_idx_final)
  ultimately show ?thesis using False by (simp add: heap_idx_ge)
next
  case True
  have ev: "even (k - 1)" "k mod 2 \<noteq> 0" using assms by (auto simp: odd_iff_mod_2_eq_one)
  have psi: "heap_idx (k - 1) (k - 1) (tau k m x) = (x + (k - 1)) mod k"
  proof (cases "x = 0")
    case True
    then have "tau k m x = k - 1" using ev by (simp add: tau_def)
    then show ?thesis using assms True by (simp add: heap_idx_final)
  next
    case False
    have "x + (k - 1) = (x - 1) + k" using False \<open>x < k\<close> by simp
    then have "(x + (k - 1)) mod k = (x - 1) mod k" by (simp only: mod_add_self2)
    then have m: "(x + (k - 1)) mod k = x - 1" using \<open>x < k\<close> by simp
    show ?thesis
    proof (cases "x = k - 1")
      case True
      then have "tau k m x = 0" using ev by (simp add: tau_def)
      then show ?thesis using assms ev m True by (simp add: heap_idx_final)
    next
      case False
      then have "tau k m x = x" using ev \<open>x \<noteq> 0\<close> by (simp add: tau_def)
      then show ?thesis using assms ev m False \<open>x \<noteq> 0\<close> \<open>x < k\<close> by (simp add: heap_idx_final)
    qed
  qed
  have lt: "(x + (k - 1)) mod k < k" using assms by simp
  have "heap_idx k m ((x + (k - 1)) mod k) = ((x + (k - 1)) mod k + m * (k - 1)) mod k"
    using lt assms unfolding heap_idx_def by (simp only: if_False if_True not_le [symmetric] simp_thms)
  also have "\<dots> = (x + (k - 1) + m * (k - 1)) mod k" by (simp only: mod_add_left_eq)
  also have "\<dots> = (x + Suc m * (k - 1)) mod k" by (simp add: add.assoc)
  also have "\<dots> = heap_idx k (Suc m) x"
    using True assms unfolding heap_idx_def by (simp only: if_False if_True not_le [symmetric] simp_thms)
  finally show ?thesis by (simp only: psi)
qed

lemma idx_step_even:
  assumes "2 \<le> k" "even k" "m < k"
  shows "heap_idx k m (heap_idx (k - 1) (k - 1) (tau k m x)) = heap_idx k (Suc m) x"
proof -
  have od: "odd (k - 1)" "k mod 2 = 0" using assms by auto
  have id: "heap_idx (k - 1) (k - 1) z = z" for z
    using od assms by (simp add: heap_idx_final)
  show ?thesis
    unfolding id using assms od
    by (auto simp: tau_def heap_idx_def min_def split: if_splits)
qed

lemma idx_step:
  assumes "2 \<le> k" "m < k"
  shows "heap_idx k m (heap_idx (k - 1) (k - 1) (tau k m x)) = heap_idx k (Suc m) x"
  using idx_step_odd idx_step_even assms by blast


lemma swap_length [simp]: "length (swap A i j) = length A"
  by (simp add: swap_def)

lemma swap_nth:
  "i < length A \<Longrightarrow> j < length A \<Longrightarrow> x < length A \<Longrightarrow>
   swap A i j ! x = (if x = j then A ! i else if x = i then A ! j else A ! x)"
  by (simp add: swap_def nth_list_update)

definition perms_of :: "nat \<Rightarrow> nat list \<Rightarrow> nat list set" where
  "perms_of k A =
     {B. length B = length A \<and> mset (take k B) = mset (take k A) \<and> drop k B = drop k A}"

lemma perms_of_refl: "A \<in> perms_of k A"
  by (simp add: perms_of_def)

lemma perms_of_eq: "X \<in> perms_of k A \<Longrightarrow> perms_of k X = perms_of k A"
  by (auto simp: perms_of_def)

lemma take_drop_pred:
  assumes "1 \<le> k" "k \<le> length B"
  shows "take k B = take (k - 1) B @ [B ! (k - 1)]" and "drop (k - 1) B = B ! (k - 1) # drop k B"
proof -
  obtain k' where k: "k = Suc k'" using assms by (cases k) auto
  show "take k B = take (k - 1) B @ [B ! (k - 1)]"
    using assms by (simp add: k take_Suc_conv_app_nth)
  show "drop (k - 1) B = B ! (k - 1) # drop k B"
    using assms by (simp add: k Cons_nth_drop_Suc)
qed

lemma perms_of_pred_subset:
  assumes "1 \<le> k" "k \<le> length A"
  shows "perms_of (k - 1) A \<subseteq> perms_of k A"
proof
  fix B assume B: "B \<in> perms_of (k - 1) A"
  then have len: "length B = length A" by (simp add: perms_of_def)
  have "B ! (k - 1) = A ! (k - 1)"
    using B take_drop_pred(2) [OF assms] take_drop_pred(2) [of k B] assms len
    by (simp add: perms_of_def)
  moreover have "drop k B = drop k A"
    using B take_drop_pred(2) [OF assms] take_drop_pred(2) [of k B] assms len
    by (simp add: perms_of_def)
  ultimately show "B \<in> perms_of k A"
    using B len take_drop_pred(1) [OF assms] take_drop_pred(1) [of k B] assms
    by (simp add: perms_of_def)
qed

lemma perms_of_last:
  assumes "1 \<le> k" "k \<le> length X" "B \<in> perms_of k X" "B ! (k - 1) = X ! (k - 1)"
  shows "B \<in> perms_of (k - 1) X"
proof -
  have len: "length B = length X" using assms(3) by (simp add: perms_of_def)
  have "mset (take (k - 1) B) + {#B ! (k - 1)#} = mset (take (k - 1) X) + {#X ! (k - 1)#}"
    using assms(3) take_drop_pred(1) [OF assms(1,2)] take_drop_pred(1) [of k B] assms(1,2) len
    by (simp add: perms_of_def)
  then have "mset (take (k - 1) B) = mset (take (k - 1) X)" using assms(4) by simp
  moreover have "drop (k - 1) B = drop (k - 1) X"
    using assms(3,4) take_drop_pred(2) [OF assms(1,2)] take_drop_pred(2) [of k B] assms(1,2) len
    by (simp add: perms_of_def)
  ultimately show ?thesis using len by (simp add: perms_of_def)
qed

lemma perms_of_last_from:
  assumes "1 \<le> k" "k \<le> length A" "B \<in> perms_of k A"
  shows "\<exists>p < k. B ! (k - 1) = A ! p"
proof -
  have len: "length B = length A" using assms(3) by (simp add: perms_of_def)
  have "B ! (k - 1) \<in> set (take k B)"
    using take_drop_pred(1) [of k B] assms len by simp
  also have "set (take k B) = set (take k A)"
    using assms(3) by (metis (mono_tags, lifting) mem_Collect_eq mset_eq_setD perms_of_def)
  finally obtain p where "p < length (take k A)" "take k A ! p = B ! (k - 1)"
    by (auto simp: in_set_conv_nth)
  then show ?thesis using assms by auto
qed

lemma swap_perms_of:
  assumes "a < k" "b < k" "k \<le> length X"
  shows "swap X a b \<in> perms_of k X"
proof -
  have "take k (swap X a b) = swap (take k X) a b"
    using assms by (simp add: swap_def take_update_swap)
  moreover have "mset (swap (take k X) a b) = mset (take k X)"
    unfolding swap_def using assms by (intro mset_swap) simp_all
  moreover have "drop k (swap X a b) = drop k X"
    using assms by (simp add: swap_def)
  ultimately show ?thesis by (simp add: perms_of_def)
qed


lemma arr_at_length [simp]: "length (arr_at k m A) = length A"
  by (simp add: arr_at_def)

lemma arr_at_nth: "x < length A \<Longrightarrow> arr_at k m A ! x = A ! heap_idx k m x"
  by (simp add: arr_at_def)

lemma arr_at_0: "arr_at k 0 A = A"
  by (simp add: arr_at_def heap_idx_0 map_nth)

lemma heap_idx_bound: "k \<le> n \<Longrightarrow> j < n \<Longrightarrow> heap_idx k m j < n"
  using heap_idx_less [of j k m] heap_idx_ge [of k j m] by (cases "j < k") auto

lemma tau_bound: "2 \<le> k \<Longrightarrow> m < k \<Longrightarrow> k \<le> n \<Longrightarrow> x < n \<Longrightarrow> tau k m x < n"
  by (auto simp: tau_def Let_def)

lemma heap_idx_onto:
  assumes "2 \<le> k" "p < k"
  shows "\<exists>i < k. heap_idx k i (k - 1) = p"
proof (cases "odd k")
  case True
  define i where "i = k - 1 - p"
  have i: "i < k" using assms by (simp add: i_def)
  obtain d where d: "k = p + 1 + d" using assms(2) by (metis less_iff_Suc_add Suc_eq_plus1 add.assoc add.commute)
  have "i = d" by (simp add: i_def d)
  then have "k - 1 + i * (k - 1) = d * k + p"
    by (simp add: d algebra_simps)
  then have "(k - 1 + i * (k - 1)) mod k = p" using assms(2) by simp
  moreover have "\<not> k \<le> k - 1" using assms by simp
  ultimately have "heap_idx k i (k - 1) = p" using True unfolding heap_idx_def by simp
  with i show ?thesis by blast
next
  case False
  show ?thesis
  proof (cases "p = k - 1")
    case True
    then have "heap_idx k 0 (k - 1) = p" by (simp add: heap_idx_0)
    moreover have "0 < k" using assms by simp
    ultimately show ?thesis by blast
  next
    case F: False
    then have "p + 1 \<le> k - 1" "\<not> k \<le> k - 1" "k - 1 \<noteq> 0" using assms by simp_all
    then have "heap_idx k (p + 1) (k - 1) = p" using False
      unfolding heap_idx_def by (simp add: min_def)
    moreover have "p + 1 < k" using F assms by simp
    ultimately show ?thesis by blast
  qed
qed

text \<open>The body of the loop of \<open>generate k\<close>, named for the proofs.\<close>

definition gen_body :: "nat \<Rightarrow> nat \<Rightarrow> nat list \<times> nat list list \<Rightarrow> nat list \<times> nat list list" where
  "gen_body k i st =
     (let st' = generate (k - 1) st
      in (if k mod 2 = 0 then swap (fst st') i (k - 1) else swap (fst st') 0 (k - 1), snd st'))"

lemma generate_unfold:
  "generate k st = (if k = 1 then (fst st, snd st @ [fst st]) else fold (gen_body k) [0..<k] st)"
  by (subst generate.simps) (simp add: gen_body_def [abs_def])

lemma gen_body_step:
  assumes k: "2 \<le> k" "k \<le> length A" and m: "m < k"
    and IH: "\<And>X R'. length X = length A \<Longrightarrow>
       \<exists>outs. generate (k - 1) (X, R') = (arr_at (k - 1) (k - 1) X, R' @ outs) \<and>
         set outs = perms_of (k - 1) X \<and> arr_at (k - 1) (k - 1) X \<in> perms_of (k - 1) X"
  shows "\<exists>outs. gen_body k m (arr_at k m A, R') = (arr_at k (Suc m) A, R' @ outs) \<and>
      set outs = perms_of (k - 1) (arr_at k m A) \<and>
      arr_at k (Suc m) A \<in> perms_of k (arr_at k m A)"
proof -
  define X where "X = arr_at k m A"
  define X' where "X' = arr_at (k - 1) (k - 1) X"
  define s where "s = (if k mod 2 = 0 then m else 0)"
  have lenX: "length X = length A" "length X' = length A" by (simp_all add: X_def X'_def)
  from IH [OF lenX(1), of R'] obtain outs where
    g: "generate (k - 1) (X, R') = (X', R' @ outs)" and o: "set outs = perms_of (k - 1) X"
    and x': "X' \<in> perms_of (k - 1) X"
    unfolding X'_def by blast
  have "0 < k" "0 < length A" using k by auto
  then have s: "s < k" "s < length A" using m k by (simp_all add: s_def)
  have b: "gen_body k m (X, R') = (swap X' s (k - 1), R' @ outs)"
    using g by (simp add: gen_body_def s_def Let_def)
  have "swap X' s (k - 1) ! x = arr_at k (Suc m) A ! x" if x: "x < length A" for x
  proof -
    have t: "tau k m x < length A" using tau_bound [OF k(1) m k(2) x] .
    have h: "heap_idx (k - 1) (k - 1) (tau k m x) < length A"
      using heap_idx_bound [OF _ t, of "k - 1"] k by simp
    have "swap X' s (k - 1) ! x = X' ! tau k m x"
      using x s k lenX by (simp add: swap_nth tau_def Let_def s_def)
    also have "\<dots> = X ! heap_idx (k - 1) (k - 1) (tau k m x)"
      using t lenX by (simp add: X'_def arr_at_nth)
    also have "\<dots> = A ! heap_idx k m (heap_idx (k - 1) (k - 1) (tau k m x))"
      using h by (simp add: X_def arr_at_nth)
    also have "\<dots> = arr_at k (Suc m) A ! x"
      using x idx_step [OF k(1) m, of x] by (simp add: arr_at_nth)
    finally show ?thesis .
  qed
  then have e: "swap X' s (k - 1) = arr_at k (Suc m) A"
    by (intro nth_equalityI) (simp_all add: lenX)
  have "swap X' s (k - 1) \<in> perms_of k X'"
    using s k lenX by (intro swap_perms_of) simp_all
  moreover have "X' \<in> perms_of k X"
    using perms_of_pred_subset [of k X] x' k lenX by auto
  ultimately have "swap X' s (k - 1) \<in> perms_of k X"
    using perms_of_eq by blast
  with b e o show ?thesis unfolding X_def by auto
qed


lemma gen_loop:
  assumes k: "2 \<le> k" "k \<le> length A" and m: "m \<le> k"
    and IH: "\<And>X R'. length X = length A \<Longrightarrow>
       \<exists>outs. generate (k - 1) (X, R') = (arr_at (k - 1) (k - 1) X, R' @ outs) \<and>
         set outs = perms_of (k - 1) X \<and> arr_at (k - 1) (k - 1) X \<in> perms_of (k - 1) X"
  shows "\<exists>outs. fold (gen_body k) [0..<m] (A, R) = (arr_at k m A, R @ outs) \<and>
      set outs = (\<Union>i<m. perms_of (k - 1) (arr_at k i A)) \<and>
      arr_at k m A \<in> perms_of k A"
  using m
proof (induction m)
  case 0
  show ?case by (simp add: arr_at_0 perms_of_refl)
next
  case (Suc m)
  then have m: "m < k" by simp
  from Suc.IH m obtain outs where
    f: "fold (gen_body k) [0..<m] (A, R) = (arr_at k m A, R @ outs)"
    and o: "set outs = (\<Union>i<m. perms_of (k - 1) (arr_at k i A))"
    and x: "arr_at k m A \<in> perms_of k A"
    by auto
  from gen_body_step [OF k m IH, of "R @ outs"] obtain outs' where
    b: "gen_body k m (arr_at k m A, R @ outs) = (arr_at k (Suc m) A, (R @ outs) @ outs')"
    and o': "set outs' = perms_of (k - 1) (arr_at k m A)"
    and x': "arr_at k (Suc m) A \<in> perms_of k (arr_at k m A)"
    by blast
  have "fold (gen_body k) [0..<Suc m] (A, R) = (arr_at k (Suc m) A, R @ (outs @ outs'))"
    by (simp add: f b)
  moreover have "set (outs @ outs') = (\<Union>i<Suc m. perms_of (k - 1) (arr_at k i A))"
    by (simp add: o o' lessThan_Suc Un_commute)
  moreover have "arr_at k (Suc m) A \<in> perms_of k A"
    using x' perms_of_eq [OF x] by simp
  ultimately show ?case by blast
qed

lemma perms_of_union:
  assumes k: "2 \<le> k" "k \<le> length A"
    and x: "\<And>i. i < k \<Longrightarrow> arr_at k i A \<in> perms_of k A"
  shows "(\<Union>i<k. perms_of (k - 1) (arr_at k i A)) = perms_of k A"
proof (intro equalityI subsetI)
  fix B assume "B \<in> (\<Union>i<k. perms_of (k - 1) (arr_at k i A))"
  then obtain i where i: "i < k" "B \<in> perms_of (k - 1) (arr_at k i A)" by auto
  have "perms_of (k - 1) (arr_at k i A) \<subseteq> perms_of k (arr_at k i A)"
    using k by (intro perms_of_pred_subset) simp_all
  then show "B \<in> perms_of k A" using i perms_of_eq [OF x [OF i(1)]] by auto
next
  fix B assume B: "B \<in> perms_of k A"
  have k1: "1 \<le> k" using k by simp
  from perms_of_last_from [OF k1 k(2) B] obtain p where p: "p < k" "B ! (k - 1) = A ! p" by blast
  from heap_idx_onto [OF k(1) p(1)] obtain i where i: "i < k" "heap_idx k i (k - 1) = p" by blast
  have "arr_at k i A ! (k - 1) = A ! p" using i k by (simp add: arr_at_nth)
  then have "B ! (k - 1) = arr_at k i A ! (k - 1)" using p by simp
  moreover have "B \<in> perms_of k (arr_at k i A)" using B perms_of_eq [OF x [OF i(1)]] by simp
  ultimately have "B \<in> perms_of (k - 1) (arr_at k i A)"
    using k by (intro perms_of_last) simp_all
  then show "B \<in> (\<Union>i<k. perms_of (k - 1) (arr_at k i A))" using i by blast
qed

lemma generate_correct:
  "1 \<le> k \<Longrightarrow> k \<le> length A \<Longrightarrow>
   \<exists>outs. generate k (A, R) = (arr_at k k A, R @ outs) \<and>
     set outs = perms_of k A \<and> arr_at k k A \<in> perms_of k A"
proof (induction k arbitrary: A R)
  case 0
  then show ?case by simp
next
  case (Suc k)
  show ?case
  proof (cases "k = 0")
    case True
    have a: "arr_at (Suc 0) (Suc 0) A = A"
      by (intro nth_equalityI) (simp_all add: arr_at_nth heap_idx_final)
    have "perms_of (Suc 0) A = {A}"
    proof (intro equalityI subsetI)
      fix B assume B: "B \<in> perms_of (Suc 0) A"
      obtain a A' where A: "A = a # A'" using Suc.prems True by (cases A) auto
      from B have "length B = length A" by (simp add: perms_of_def)
      then obtain b B' where B': "B = b # B'" using A by (cases B) auto
      from B have "B = A" unfolding A B' perms_of_def by simp
      then show "B \<in> {A}" by simp
    qed (simp add: perms_of_refl)
    then show ?thesis using True by (subst generate_unfold) (simp add: a)
  next
    case False
    then have k: "2 \<le> Suc k" "Suc k \<le> length A" "Suc k \<noteq> 1" using Suc.prems by simp_all
    have IH: "\<exists>outs. generate (Suc k - 1) (X, R') = (arr_at (Suc k - 1) (Suc k - 1) X, R' @ outs) \<and>
         set outs = perms_of (Suc k - 1) X \<and> arr_at (Suc k - 1) (Suc k - 1) X \<in> perms_of (Suc k - 1) X"
      if "length X = length A" for X R'
      using Suc.IH [of X R'] False that k by simp
    note L = gen_loop [OF k(1,2) _ IH]
    from L [of "Suc k" R] obtain outs where
      f: "fold (gen_body (Suc k)) [0..<Suc k] (A, R) = (arr_at (Suc k) (Suc k) A, R @ outs)"
      and o: "set outs = (\<Union>i<Suc k. perms_of (Suc k - 1) (arr_at (Suc k) i A))"
      and x: "arr_at (Suc k) (Suc k) A \<in> perms_of (Suc k) A"
      by auto
    have xi: "arr_at (Suc k) i A \<in> perms_of (Suc k) A" if "i < Suc k" for i
      using L [of i Nil] that by auto
    have "set outs = perms_of (Suc k) A"
      unfolding o by (rule perms_of_union [OF k(1,2) xi])
    moreover have "generate (Suc k) (A, R) = (arr_at (Suc k) (Suc k) A, R @ outs)"
      using f k(3) by (subst generate_unfold) (simp only: if_False)
    ultimately show ?thesis using x by blast
  qed
qed

lemma set_permutations: "set (permutations n) = {p. mset p = mset [0..<n]}"
proof (cases "n = 0")
  case True
  then show ?thesis by (auto simp: permutations_def)
next
  case False
  from generate_correct [of n "[0..<n]" Nil] False obtain outs where
    "generate n ([0..<n], []) = (arr_at n n [0..<n], outs)" "set outs = perms_of n [0..<n]"
    by auto
  then have "set (permutations n) = perms_of n [0..<n]"
    using False by (simp add: permutations_def)
  also have "\<dots> = {p. mset p = mset [0..<n]}"
  proof (intro equalityI subsetI)
    fix p assume "p \<in> perms_of n [0..<n]"
    then have l: "length p = n" and t: "mset (take n p) = mset (take n [0..<n])"
      unfolding perms_of_def by auto
    from l have "take n p = p" by simp
    with t show "p \<in> {p. mset p = mset [0..<n]}" by simp
  next
    fix p assume "p \<in> {p. mset p = mset [0..<n]}"
    then have m: "mset p = mset [0..<n]" by simp
    from mset_eq_length [OF m] have "length p = n" by simp
    with m show "p \<in> perms_of n [0..<n]" by (simp add: perms_of_def)
  qed
  finally show ?thesis .
qed

section \<open>Relabelling as a map on edge ids\<close>

text \<open>
  \<open>em T p idx\<close> is the edge id that \<open>relabel_step\<close> sets for edge \<open>idx\<close>; \<open>compose q p\<close> is
  the permutation "first \<open>p\<close>, then \<open>q\<close>" as an array.
\<close>

definition em :: "tables \<Rightarrow> nat list \<Rightarrow> nat \<Rightarrow> nat" where
  "em T p idx =
     (let (i, j) = edgePairs T ! idx;
          ni = p ! i;
          nj = p ! j;
          (ni, nj) = (if ni > nj then (nj, ni) else (ni, nj))
      in edgeIndex T ! ni ! nj)"

definition compose :: "nat list \<Rightarrow> nat list \<Rightarrow> nat list" where
  "compose q p = map ((!) q) p"

lemma relabel_step_em:
  "relabel_step T p g idx r = (if bit g idx then setbit r (em T p idx) else r)"
  by (simp add: relabel_step_def em_def Let_def split_def)

lemma relabel_fold_bits:
  "bit (fold (relabel_step T p g) xs r) b \<longleftrightarrow>
     bit r b \<or> (\<exists>idx \<in> set xs. bit g idx \<and> em T p idx = b \<and> b < 64)"
  by (induction xs arbitrary: r) (auto simp: relabel_step_em)

lemma relabel_bits:
  "bit (relabel T p g) b \<longleftrightarrow> (\<exists>idx < numEdges T. bit g idx \<and> em T p idx = b \<and> b < 64)"
  by (auto simp: relabel_def relabel_fold_bits)

lemma perm_props:
  assumes "mset p = mset [0..<n]"
  shows "length p = n" and "distinct p" and "set p = {0..<n}"
proof -
  show "length p = n" using mset_eq_length [OF assms] by simp
  show "distinct p" using mset_eq_imp_distinct_iff [OF assms] by simp
  show "set p = {0..<n}" using mset_eq_setD [OF assms] by simp
qed

lemma perm_nth_less: "mset p = mset [0..<n] \<Longrightarrow> i < n \<Longrightarrow> p ! i < n"
  using perm_props [of p n] nth_mem [of i p] by auto

lemma perm_nth_inj: "mset p = mset [0..<n] \<Longrightarrow> i < n \<Longrightarrow> j < n \<Longrightarrow> p ! i = p ! j \<Longrightarrow> i = j"
  using perm_props [of p n] by (simp add: nth_eq_iff_index_eq)

lemma perm_from_distinct:
  assumes "distinct p" "set p = {0..<n}"
  shows "mset p = mset [0..<n]"
proof -
  have "set p = set [0..<n]" using assms by simp
  then show ?thesis using assms(1) by (simp only: set_eq_iff_mset_eq_distinct [OF assms(1) distinct_upt])
qed

lemma compose_perm:
  assumes "mset q = mset [0..<n]" "mset p = mset [0..<n]"
  shows "mset (compose q p) = mset [0..<n]"
proof -
  have "mset (compose q p) = image_mset ((!) q) (mset p)" by (simp add: compose_def)
  also have "\<dots> = image_mset ((!) q) (mset [0..<n])" by (simp only: assms(2))
  also have "\<dots> = mset (map ((!) q) [0..<length q])"
    using perm_props(1) [OF assms(1)] by simp
  also have "\<dots> = mset q" by (simp only: map_nth)
  finally show ?thesis using assms(1) by simp
qed

lemma compose_nth: "mset p = mset [0..<n] \<Longrightarrow> i < n \<Longrightarrow> compose q p ! i = q ! (p ! i)"
  using perm_props(1) [of p n] by (simp add: compose_def)

lemma perm_of_bij:
  assumes "bij_betw f {..<n} {..<n}"
  shows "mset (map f [0..<n]) = mset [0..<n]"
proof (rule perm_from_distinct)
  have "inj_on f {0..<n}" using assms by (simp add: bij_betw_def atLeast0LessThan)
  then show "distinct (map f [0..<n])" by (simp add: distinct_map)
  show "set (map f [0..<n]) = {0..<n}"
    using assms by (simp add: bij_betw_def atLeast0LessThan)
qed

lemma perm_bij:
  assumes "mset p = mset [0..<n]"
  shows "bij_betw ((!) p) {..<n} {..<n}"
  by (rule bij_betw_nth [OF perm_props(2) [OF assms]])
    (simp_all add: perm_props [OF assms] atLeast0LessThan)

lemma perm_inverse:
  assumes "mset p = mset [0..<n]"
  shows "\<exists>pinv. mset pinv = mset [0..<n] \<and> compose pinv p = [0..<n] \<and> compose p pinv = [0..<n]"
proof -
  define f where "f = inv_into {..<n} ((!) p)"
  define pinv where "pinv = map f [0..<n]"
  have b: "bij_betw ((!) p) {..<n} {..<n}" by (rule perm_bij [OF assms])
  then have bf: "bij_betw f {..<n} {..<n}" unfolding f_def by (rule bij_betw_inv_into)
  have pi: "mset pinv = mset [0..<n]" unfolding pinv_def by (rule perm_of_bij [OF bf])
  have l: "length p = n" "length pinv = n" using perm_props(1) assms pi by auto
  have "compose pinv p ! i = i" if "i < n" for i
  proof -
    have "p ! i < n" by (rule perm_nth_less [OF assms that])
    then have "compose pinv p ! i = f (p ! i)"
      using that l by (simp add: compose_def pinv_def)
    also have "\<dots> = i" unfolding f_def
      using b that by (intro inv_into_f_f) (auto simp: bij_betw_def)
    finally show ?thesis .
  qed
  then have c1: "compose pinv p = [0..<n]"
    using l by (intro nth_equalityI) (simp_all add: compose_def)
  have "compose p pinv ! i = i" if "i < n" for i
  proof -
    have "compose p pinv ! i = p ! (f i)"
      using that l by (simp add: compose_def pinv_def)
    also have "\<dots> = i" unfolding f_def
      using b that by (intro f_inv_into_f) (auto simp: bij_betw_def)
    finally show ?thesis .
  qed
  then have c2: "compose p pinv = [0..<n]"
    using l by (intro nth_equalityI) (simp_all add: compose_def)
  from pi c1 c2 show ?thesis by blast
qed


lemma numEdges_le:
  assumes "n \<le> 11"
  shows "numEdges (initEdges n) \<le> 55"
proof -
  have "n * (n - 1) \<le> 11 * 10" using assms by (intro mult_le_mono) simp_all
  then show ?thesis by (simp add: initEdges_tables(2))
qed

lemma em_eq:
  assumes p: "mset p = mset [0..<n]" and idx: "idx < numEdges (initEdges n)"
  shows "\<exists>i j. edgePairs (initEdges n) ! idx = (i, j) \<and> i < j \<and> j < n \<and>
      edgeIndex (initEdges n) ! i ! j = idx \<and>
      min (p ! i) (p ! j) < max (p ! i) (p ! j) \<and> max (p ! i) (p ! j) < n \<and>
      em (initEdges n) p idx = edgeIndex (initEdges n) ! min (p ! i) (p ! j) ! max (p ! i) (p ! j)"
proof -
  from edgePairs_props [OF idx] obtain i j where
    ij: "edgePairs (initEdges n) ! idx = (i, j)" "i < j" "j < n" "edgeIndex (initEdges n) ! i ! j = idx"
    by blast
  have "p ! i \<noteq> p ! j" using perm_nth_inj [OF p, of i j] ij by auto
  moreover have "p ! i < n" "p ! j < n" using perm_nth_less [OF p] ij by simp_all
  moreover have "em (initEdges n) p idx = edgeIndex (initEdges n) ! min (p ! i) (p ! j) ! max (p ! i) (p ! j)"
    by (simp add: em_def ij Let_def min_def max_def)
  ultimately show ?thesis using ij by (auto simp: min_def max_def)
qed

lemma em_less:
  assumes "mset p = mset [0..<n]" "idx < numEdges (initEdges n)"
  shows "em (initEdges n) p idx < numEdges (initEdges n)"
proof -
  from em_eq [OF assms] obtain i j where
    "min (p ! i) (p ! j) < max (p ! i) (p ! j)" "max (p ! i) (p ! j) < n"
    "em (initEdges n) p idx = edgeIndex (initEdges n) ! min (p ! i) (p ! j) ! max (p ! i) (p ! j)"
    by blast
  then show ?thesis using edgeIndex_props(1) by simp
qed

lemma em_compose:
  assumes p: "mset p = mset [0..<n]" and q: "mset q = mset [0..<n]"
    and idx: "idx < numEdges (initEdges n)"
  shows "em (initEdges n) (compose q p) idx = em (initEdges n) q (em (initEdges n) p idx)"
proof -
  define T where "T = initEdges n"
  from em_eq [OF p idx] obtain i j where
    ij: "edgePairs T ! idx = (i, j)" "i < j" "j < n"
    and m: "min (p ! i) (p ! j) < max (p ! i) (p ! j)" "max (p ! i) (p ! j) < n"
    and e: "em T p idx = edgeIndex T ! min (p ! i) (p ! j) ! max (p ! i) (p ! j)"
    unfolding T_def by blast
  have pp: "edgePairs T ! (em T p idx) = (min (p ! i) (p ! j), max (p ! i) (p ! j))"
    unfolding e unfolding T_def by (rule edgeIndex_props(2) [OF m])
  have c: "compose q p ! i = q ! (p ! i)" "compose q p ! j = q ! (p ! j)"
    using compose_nth [OF p] ij by simp_all
  have "em T (compose q p) idx = em T q (em T p idx)"
    by (simp add: em_def [of T "compose q p"] em_def [of T q] ij pp c Let_def min_def max_def)
  then show ?thesis by (simp add: T_def)
qed

lemma em_id:
  assumes "idx < numEdges (initEdges n)"
  shows "em (initEdges n) [0..<n] idx = idx"
proof -
  from edgePairs_props [OF assms] obtain i j where
    ij: "edgePairs (initEdges n) ! idx = (i, j)" "i < j" "j < n" "edgeIndex (initEdges n) ! i ! j = idx"
    by blast
  then show ?thesis by (simp add: em_def Let_def)
qed

lemma em_inj:
  assumes p: "mset p = mset [0..<n]"
    and a: "a < numEdges (initEdges n)" and b: "b < numEdges (initEdges n)"
    and e: "em (initEdges n) p a = em (initEdges n) p b"
  shows "a = b"
proof -
  from perm_inverse [OF p] obtain pinv where
    pinv: "mset pinv = mset [0..<n]" "compose pinv p = [0..<n]" by blast
  have "a = em (initEdges n) (compose pinv p) a" by (simp add: pinv(2) em_id [OF a])
  also have "\<dots> = em (initEdges n) pinv (em (initEdges n) p a)" by (rule em_compose [OF p pinv(1) a])
  also have "\<dots> = em (initEdges n) pinv (em (initEdges n) p b)" by (simp only: e)
  also have "\<dots> = em (initEdges n) (compose pinv p) b" by (rule em_compose [OF p pinv(1) b, symmetric])
  also have "\<dots> = b" by (simp add: pinv(2) em_id [OF b])
  finally show ?thesis .
qed

lemma relabel_bits_initEdges:
  assumes "n \<le> 11" "mset p = mset [0..<n]"
  shows "bit (relabel (initEdges n) p g) b \<longleftrightarrow>
     (\<exists>idx < numEdges (initEdges n). bit g idx \<and> em (initEdges n) p idx = b)"
proof -
  have "b < 64" if "idx < numEdges (initEdges n)" "em (initEdges n) p idx = b" for idx
    using em_less [OF assms(2) that(1)] numEdges_le [OF assms(1)] that(2) by simp
  then show ?thesis unfolding relabel_bits by blast
qed

lemma relabel_in_range:
  assumes "n \<le> 11" "mset p = mset [0..<n]"
  shows "take_bit (numEdges (initEdges n)) (relabel (initEdges n) p g) = relabel (initEdges n) p g"
proof (rule bit_eqI)
  fix b
  show "bit (take_bit (numEdges (initEdges n)) (relabel (initEdges n) p g)) b \<longleftrightarrow>
      bit (relabel (initEdges n) p g) b"
    using em_less [OF assms(2)]
    by (auto simp: bit_take_bit_iff relabel_bits_initEdges [OF assms])
qed

lemma graph_bit_less:
  "take_bit m (g :: Graph) = g \<Longrightarrow> bit g b \<Longrightarrow> b < m"
  by (metis bit_take_bit_iff)

lemma relabel_compose:
  assumes n: "n \<le> 11" and p: "mset p = mset [0..<n]" and q: "mset q = mset [0..<n]"
  shows "relabel (initEdges n) q (relabel (initEdges n) p g) = relabel (initEdges n) (compose q p) g"
proof (rule bit_eqI)
  fix b
  define T where "T = initEdges n"
  have "bit (relabel T q (relabel T p g)) b \<longleftrightarrow>
      (\<exists>idx' < numEdges T. (\<exists>idx < numEdges T. bit g idx \<and> em T p idx = idx') \<and> em T q idx' = b)"
    unfolding T_def by (simp only: relabel_bits_initEdges [OF n q] relabel_bits_initEdges [OF n p])
  also have "\<dots> \<longleftrightarrow> (\<exists>idx < numEdges T. bit g idx \<and> em T q (em T p idx) = b)"
    using em_less [OF p] unfolding T_def by blast
  also have "\<dots> \<longleftrightarrow> (\<exists>idx < numEdges T. bit g idx \<and> em T (compose q p) idx = b)"
    using em_compose [OF p q] unfolding T_def by auto
  also have "\<dots> \<longleftrightarrow> bit (relabel T (compose q p) g) b"
    unfolding T_def by (simp only: relabel_bits_initEdges [OF n compose_perm [OF q p]])
  finally show "bit (relabel (initEdges n) q (relabel (initEdges n) p g)) b \<longleftrightarrow>
      bit (relabel (initEdges n) (compose q p) g) b"
    by (simp add: T_def)
qed

lemma relabel_id:
  assumes n: "n \<le> 11" and g: "take_bit (numEdges (initEdges n)) g = g"
  shows "relabel (initEdges n) [0..<n] g = g"
proof (rule bit_eqI)
  fix b
  have "bit (relabel (initEdges n) [0..<n] g) b \<longleftrightarrow>
      (\<exists>idx < numEdges (initEdges n). bit g idx \<and> em (initEdges n) [0..<n] idx = b)"
    by (rule relabel_bits_initEdges [OF n]) simp
  also have "\<dots> \<longleftrightarrow> (\<exists>idx < numEdges (initEdges n). bit g idx \<and> idx = b)"
    using em_id by auto
  also have "\<dots> \<longleftrightarrow> bit g b"
    using graph_bit_less [OF g] by auto
  finally show "bit (relabel (initEdges n) [0..<n] g) b \<longleftrightarrow> bit g b" .
qed

section \<open>The maximality filter\<close>

lemma bits_finite: "finite {b. bit (w :: Graph) b}"
proof (rule finite_subset)
  show "{b. bit w b} \<subseteq> {..<64}" by (auto dest: bit_imp_le_length)
qed simp

lemma bits_split:
  "{b. bit (w :: Graph) b} = (if bit w 0 then {0} else {}) \<union> Suc ` {b. bit (drop_bit 1 w) b}"
proof -
  have d: "bit (drop_bit 1 w) b' \<longleftrightarrow> bit w (Suc b')" for b'
    by (simp only: bit_drop_bit_eq comp_def plus_1_eq_Suc)
  have "bit w b \<longleftrightarrow> (b = 0 \<and> bit w 0) \<or> (\<exists>b'. b = Suc b' \<and> bit (drop_bit 1 w) b')" for b
    unfolding d by (cases b) blast+
  then have "b \<in> {b. bit w b} \<longleftrightarrow>
      b \<in> (if bit w 0 then {0} else {}) \<union> Suc ` {b. bit (drop_bit 1 w) b}" for b
    unfolding image_iff mem_Collect_eq Un_iff by (cases "bit w 0") auto
  then show ?thesis by blast
qed

lemma card_bits_split:
  "card {b. bit (w :: Graph) b} = (if bit w 0 then 1 else 0) + card {b. bit (drop_bit 1 w) b}"
proof -
  have "card (Suc ` {b. bit (drop_bit 1 w) b}) = card {b. bit (drop_bit 1 w) b}"
    by (rule card_image) simp
  moreover have "card ((if bit w 0 then {0} else {}) \<union> Suc ` {b. bit (drop_bit 1 w) b}) =
      card (if bit w 0 then {0 :: nat} else {}) + card (Suc ` {b. bit (drop_bit 1 w) b})"
    by (rule card_Un_disjoint) (auto simp: bits_finite)
  ultimately show ?thesis by (subst bits_split) simp
qed

lemma edgeCount_loop_card: "edgeCount_loop tmp cnt = cnt + card {b. bit tmp b}"
proof (induction tmp cnt rule: edgeCount_loop.induct)
  case (1 tmp cnt)
  show ?case
  proof (cases "tmp \<noteq> 0")
    case True
    have "unat (tmp AND 1) = unat tmp AND unat (1 :: Graph)" by (rule unsigned_and_eq)
    then have a: "unat (tmp AND 1) = unat tmp mod 2" by (simp add: and_one_eq)
    have "bit (unat tmp) 0 \<longleftrightarrow> bit tmp 0" by (simp add: bit_unsigned_iff)
    then have b: "bit tmp 0 \<longleftrightarrow> odd (unat tmp)" by (simp only: bit_0)
    have u: "unat (tmp AND 1) = (if bit tmp 0 then 1 else 0)"
      unfolding a b by (simp add: mod2_eq_if)
    have "edgeCount_loop tmp cnt = edgeCount_loop (drop_bit 1 tmp) (cnt + unat (tmp AND 1))"
      using True by (subst edgeCount_loop.simps) simp
    also have "\<dots> = cnt + unat (tmp AND 1) + card {b. bit (drop_bit 1 tmp) b}"
      by (rule 1 [OF True])
    also have "\<dots> = cnt + card {b. bit tmp b}"
      by (simp only: u card_bits_split [of tmp] add.assoc)
    finally show ?thesis .
  next
    case False
    then have "{b. bit tmp b} = {}" by simp
    then have "card {b. bit tmp b} = 0" by (simp only: card.empty)
    with False show ?thesis by (subst edgeCount_loop.simps) (simp del: bit_0_eq)
  qed
qed

lemma edgeCount_card: "edgeCount g = card {b. bit g b}"
  by (simp add: edgeCount_def edgeCount_loop_card)

lemma and_subset: "(r :: Graph) AND h = r \<longleftrightarrow> (\<forall>b. bit r b \<longrightarrow> bit h b)"
proof
  assume "r AND h = r"
  then have "bit (r AND h) b = bit r b" for b by simp
  then have "(bit r b \<and> bit h b) = bit r b" for b by (simp add: bit_and_iff)
  then show "\<forall>b. bit r b \<longrightarrow> bit h b" by blast
next
  assume "\<forall>b. bit r b \<longrightarrow> bit h b"
  then show "r AND h = r" by (intro bit_eqI) (auto simp: bit_and_iff)
qed

lemma iso_loop_iff:
  "isIsomorphicSubgraphOf_loop T g other ps \<longleftrightarrow>
     (\<exists>p \<in> set ps. relabel T p g AND other = relabel T p g)"
  by (induction ps) (auto simp: Let_def)

lemma iso_code_iff:
  "isIsomorphicSubgraphOf T g other \<longleftrightarrow>
     (\<exists>p. mset p = mset [0..<nV T] \<and> (\<forall>b. bit (relabel T p g) b \<longrightarrow> bit other b))"
  by (auto simp: isIsomorphicSubgraphOf_def iso_loop_iff allPerms_def set_permutations and_subset)

lemma isSubgraph_iff: "isSubgraph T g maximal \<longleftrightarrow> (\<exists>m \<in> set maximal. isIsomorphicSubgraphOf T g m)"
  by (induction maximal) auto


text \<open>
  \<open>G\<close> is an isomorphic subgraph of \<open>H\<close>: some permutation of the vertices sends every
  edge of \<open>G\<close> to an edge of \<open>H\<close>. Edges are read off the masks with \<open>hasEdge\<close>.
\<close>

definition iso_subgraph :: "tables \<Rightarrow> Graph \<Rightarrow> Graph \<Rightarrow> bool" where
  "iso_subgraph T G H \<longleftrightarrow>
     (\<exists>f. bij_betw f {..<nV T} {..<nV T} \<and>
        (\<forall>a < nV T. \<forall>b < nV T. a \<noteq> b \<and> hasEdge T G a b \<longrightarrow> hasEdge T H (f a) (f b)))"

lemma hasEdge_bit: "hasEdge T g x y = bit g (edgeIndex T ! min x y ! max x y)"
  by (simp add: hasEdge_def min_def max_def)

lemma iso_code_spec:
  assumes n: "n \<le> 11"
  shows "isIsomorphicSubgraphOf (initEdges n) G H \<longleftrightarrow> iso_subgraph (initEdges n) G H"
proof
  define T where "T = initEdges n"
  assume "isIsomorphicSubgraphOf (initEdges n) G H"
  then obtain p where p: "mset p = mset [0..<n]"
    and sub: "\<And>b. bit (relabel T p G) b \<Longrightarrow> bit H b"
    unfolding iso_code_iff T_def by (auto simp: initEdges_tables(1))
  have "hasEdge T H (p ! a) (p ! b)" if ab: "a < n" "b < n" "a \<noteq> b" "hasEdge T G a b" for a b
  proof -
    define i j where "i = min a b" and "j = max a b"
    have ij: "i < j" "j < n" using ab by (auto simp: i_def j_def)
    define idx where "idx = edgeIndex T ! i ! j"
    have idx: "idx < numEdges T" "edgePairs T ! idx = (i, j)"
      unfolding idx_def T_def using edgeIndex_props [OF ij] by simp_all
    have "bit G idx" using ab(4) by (simp add: hasEdge_bit idx_def i_def j_def)
    moreover have "em T p idx = edgeIndex T ! min (p ! a) (p ! b) ! max (p ! a) (p ! b)"
      by (auto simp: em_def idx Let_def i_def j_def min_def max_def)
    ultimately have "bit (relabel T p G) (edgeIndex T ! min (p ! a) (p ! b) ! max (p ! a) (p ! b))"
      using idx(1) unfolding T_def relabel_bits_initEdges [OF n p] by blast
    then show ?thesis using sub by (simp add: hasEdge_bit)
  qed
  moreover have "bij_betw ((!) p) {..<n} {..<n}" by (rule perm_bij [OF p])
  ultimately show "iso_subgraph (initEdges n) G H"
    unfolding iso_subgraph_def T_def initEdges_tables(1) by blast
next
  define T where "T = initEdges n"
  assume "iso_subgraph (initEdges n) G H"
  then obtain f where f: "bij_betw f {..<n} {..<n}"
    and e: "\<And>a b. a < n \<Longrightarrow> b < n \<Longrightarrow> a \<noteq> b \<Longrightarrow> hasEdge T G a b \<Longrightarrow> hasEdge T H (f a) (f b)"
    unfolding iso_subgraph_def T_def initEdges_tables(1) by blast
  define p where "p = map f [0..<n]"
  have p: "mset p = mset [0..<n]" unfolding p_def by (rule perm_of_bij [OF f])
  have pn: "p ! i = f i" if "i < n" for i using that by (simp add: p_def)
  have "bit H b" if "bit (relabel T p G) b" for b
  proof -
    from that obtain idx where idx: "idx < numEdges T" "bit G idx" "em T p idx = b"
      unfolding T_def relabel_bits_initEdges [OF n p] by blast
    from edgePairs_props [OF idx(1) [unfolded T_def]] obtain i j where
      ij: "edgePairs T ! idx = (i, j)" "i < j" "j < n" "edgeIndex T ! i ! j = idx"
      unfolding T_def by blast
    have "hasEdge T G i j" using ij idx(2) by (simp add: hasEdge_bit min_def max_def)
    then have "hasEdge T H (f i) (f j)" using e [of i j] ij by simp
    moreover have "em T p idx = edgeIndex T ! min (f i) (f j) ! max (f i) (f j)"
      using ij pn by (auto simp: em_def Let_def min_def max_def)
    ultimately show ?thesis using idx(3) by (simp add: hasEdge_bit)
  qed
  then show "isIsomorphicSubgraphOf (initEdges n) G H"
    unfolding iso_code_iff using p by (auto simp: T_def initEdges_tables(1))
qed

lemma card_relabel:
  assumes n: "n \<le> 11" and p: "mset p = mset [0..<n]"
    and g: "take_bit (numEdges (initEdges n)) g = g"
  shows "edgeCount (relabel (initEdges n) p g) = edgeCount g"
proof -
  have "{b. bit (relabel (initEdges n) p g) b} = em (initEdges n) p ` {idx. bit g idx}"
    using graph_bit_less [OF g] by (auto simp: relabel_bits_initEdges [OF n p])
  moreover have "inj_on (em (initEdges n) p) {idx. bit g idx}"
    using graph_bit_less [OF g] em_inj [OF p] by (auto simp: inj_on_def)
  ultimately show ?thesis by (simp add: edgeCount_card card_image)
qed

lemma iso_equal_count:
  assumes n: "n \<le> 11"
    and G: "take_bit (numEdges (initEdges n)) G = G"
    and c: "edgeCount H \<le> edgeCount G"
    and iso: "isIsomorphicSubgraphOf (initEdges n) G H"
  shows "isIsomorphicSubgraphOf (initEdges n) H G"
proof -
  define T where "T = initEdges n"
  from iso obtain p where p: "mset p = mset [0..<n]"
    and sub: "{b. bit (relabel T p G) b} \<subseteq> {b. bit H b}"
    unfolding iso_code_iff T_def by (auto simp: initEdges_tables(1))
  have "card {b. bit H b} \<le> card {b. bit (relabel T p G) b}"
    using c card_relabel [OF n p G] by (simp add: edgeCount_card T_def)
  with sub have "{b. bit (relabel T p G) b} = {b. bit H b}"
    by (intro card_seteq bits_finite)
  then have H: "H = relabel T p G" by (intro bit_eqI) auto
  from perm_inverse [OF p] obtain pinv where
    pinv: "mset pinv = mset [0..<n]" "compose pinv p = [0..<n]" by blast
  have "relabel T pinv H = G"
    unfolding H T_def relabel_compose [OF n p pinv(1)] pinv(2) by (rule relabel_id [OF n G])
  then show ?thesis
    unfolding iso_code_iff using pinv(1) by (auto simp: T_def initEdges_tables(1))
qed


definition later_ok :: "tables \<Rightarrow> Graph \<Rightarrow> Graph \<Rightarrow> bool" where
  "later_ok T a b \<longleftrightarrow> edgeCount b \<le> edgeCount a \<and> \<not> isIsomorphicSubgraphOf T b a"

lemma filter_fold:
  assumes "sorted_wrt (\<lambda>a b. edgeCount b \<le> edgeCount a) xs"
    and "sorted_wrt (later_ok T) acc"
    and "\<forall>a \<in> set acc. \<forall>x \<in> set xs. edgeCount x \<le> edgeCount a"
  shows "sorted_wrt (later_ok T)
      (fold (\<lambda>g maximal. if \<not> isSubgraph T g maximal then maximal @ [g] else maximal) xs acc) \<and>
    set (fold (\<lambda>g maximal. if \<not> isSubgraph T g maximal then maximal @ [g] else maximal) xs acc)
      \<subseteq> set acc \<union> set xs"
  using assms
proof (induction xs arbitrary: acc)
  case Nil
  then show ?case by simp
next
  case (Cons x xs)
  define acc' where "acc' = (if \<not> isSubgraph T x acc then acc @ [x] else acc)"
  have s: "sorted_wrt (\<lambda>a b. edgeCount b \<le> edgeCount a) xs"
    and xl: "\<forall>y \<in> set xs. edgeCount y \<le> edgeCount x"
    using Cons.prems(1) by simp_all
  have a: "sorted_wrt (later_ok T) acc'"
  proof (cases "isSubgraph T x acc")
    case True
    then show ?thesis using Cons.prems(2) by (simp add: acc'_def)
  next
    case False
    then have "\<forall>a \<in> set acc. later_ok T a x"
      using Cons.prems(3) by (simp add: later_ok_def isSubgraph_iff)
    then show ?thesis using Cons.prems(2) False by (simp add: acc'_def sorted_wrt_append)
  qed
  have b: "\<forall>a \<in> set acc'. \<forall>y \<in> set xs. edgeCount y \<le> edgeCount a"
    using Cons.prems(3) xl by (auto simp: acc'_def)
  have c: "set acc' \<subseteq> set acc \<union> {x}" by (auto simp: acc'_def)
  from Cons.IH [OF s a b] c show ?case
    by (auto simp: acc'_def)
qed

text \<open>
  Claim C4. \<open>sort.Slice\<close> belongs to the Go library; what the filter needs of it is that
  the pool it leaves is in descending order of edge count. For every such pool of
  graphs on \<open>n \<le> 11\<close> vertices (the sizes whose \<open>C(n,2)\<close> edge ids fit the 64-bit mask),
  no graph of the output is an isomorphic subgraph of another graph of the output,
  whichever of the two was accepted first.
\<close>

theorem filter_maximal_pairwise:
  assumes n: "n \<le> 11"
    and graphs: "\<forall>g \<in> set allGraphs. take_bit (numEdges (initEdges n)) g = g"
    and sorted: "sorted_wrt (\<lambda>a b. edgeCount b \<le> edgeCount a) allGraphs"
    and G: "G \<in> set (filter_maximal (initEdges n) allGraphs)"
    and H: "H \<in> set (filter_maximal (initEdges n) allGraphs)"
    and ne: "G \<noteq> H"
  shows "\<not> iso_subgraph (initEdges n) G H"
proof -
  define T where "T = initEdges n"
  define out where "out = filter_maximal T allGraphs"
  have F: "sorted_wrt (later_ok T) out" "set out \<subseteq> set allGraphs"
    using filter_fold [OF sorted, of T Nil] by (simp_all add: out_def filter_maximal_def)
  from G H obtain i j where ij: "i < length out" "out ! i = G" "j < length out" "out ! j = H"
    unfolding out_def T_def by (auto simp: in_set_conv_nth)
  have g: "take_bit (numEdges (initEdges n)) G = G"
    using graphs F(2) G by (auto simp: out_def T_def)
  have "i \<noteq> j" using ij ne by auto
  then consider "i < j" | "j < i" by linarith
  then have "\<not> isIsomorphicSubgraphOf T G H"
  proof cases
    case 1
    then have "later_ok T G H" using F(1) ij by (auto simp: sorted_wrt_iff_nth_less)
    then have "edgeCount H \<le> edgeCount G" "\<not> isIsomorphicSubgraphOf T H G"
      by (simp_all add: later_ok_def)
    then show ?thesis using iso_equal_count [OF n g] by (auto simp: T_def)
  next
    case 2
    then have "later_ok T H G" using F(1) ij by (auto simp: sorted_wrt_iff_nth_less)
    then show ?thesis by (simp add: later_ok_def)
  qed
  then show ?thesis by (simp add: T_def iso_code_spec [OF n])
qed

lemma filter_example: "filter_maximal (initEdges 4) [7, 11] = [7, 11]"
  by code_simp

lemma edgeCount_example: "edgeCount 7 = 3" "edgeCount 11 = 3"
  by code_simp+

theorem filter_maximal_pairwise_witness: "\<not> iso_subgraph (initEdges 4) 7 11"
proof -
  have "\<forall>g \<in> set [7, 11 :: Graph]. take_bit (numEdges (initEdges 4)) g = g"
    by (simp add: initEdges_tables(2))
  moreover have "sorted_wrt (\<lambda>a b. edgeCount b \<le> edgeCount a) [7, 11]"
    by (simp add: edgeCount_example)
  ultimately show ?thesis
    using filter_maximal_pairwise [of 4 "[7, 11]" 7 11] by (simp add: filter_example)
qed

section \<open>Canonical forms\<close>

text \<open>
  \<open>leaf\<close> is what \<open>canonical\<close> does at \<open>k == 1\<close>; \<open>canon_body\<close> names the body of its loop.
  The enumeration of \<open>canonical\<close> visits the arrays that \<open>generate\<close> appends, in the same
  order.
\<close>

definition leaf :: "tables \<Rightarrow> Graph \<Rightarrow> nat list \<Rightarrow> Graph \<Rightarrow> Graph" where
  "leaf T g perm best = (let relabeled = relabel T perm g in if relabeled < best then relabeled else best)"

definition canon_body :: "tables \<Rightarrow> Graph \<Rightarrow> nat \<Rightarrow> nat \<Rightarrow> nat list \<times> Graph \<Rightarrow> nat list \<times> Graph" where
  "canon_body T g k i st =
     (let st' = canonical_generate T g (k - 1) st
      in (if k mod 2 = 0 then swap (fst st') i (k - 1) else swap (fst st') 0 (k - 1), snd st'))"

lemma canonical_generate_unfold:
  "canonical_generate T g k st =
     (if k = 1 then (fst st, leaf T g (fst st) (snd st)) else fold (canon_body T g k) [0..<k] st)"
  by (subst canonical_generate.simps) (simp add: canon_body_def [abs_def] leaf_def Let_def)

lemma fold_append_outs:
  assumes "\<And>i A R. i \<in> set xs \<Longrightarrow> body i (A, R) = (fst (body i (A, [])), R @ snd (body i (A, [])))"
  shows "fold body xs (A, R) = (fst (fold body xs (A, [])), R @ snd (fold body xs (A, [])))"
  using assms
proof (induction xs arbitrary: A R)
  case Nil
  show ?case by simp
next
  case (Cons x xs)
  define A1 where "A1 = fst (body x (A, []))"
  define O1 where "O1 = snd (body x (A, []))"
  have b: "body x (A, R') = (A1, R' @ O1)" for R'
    using Cons.prems [of x A R'] by (simp add: A1_def O1_def)
  have IH: "fold body xs (A1, R') = (fst (fold body xs (A1, [])), R' @ snd (fold body xs (A1, [])))" for R'
    by (rule Cons.IH, rule Cons.prems) simp
  show ?case
    using IH [of "R @ O1"] IH [of O1] b [of R] b [of Nil] by simp
qed

lemma generate_append:
  "generate k (A, R) = (fst (generate k (A, [])), R @ snd (generate k (A, [])))"
proof (induction k arbitrary: A R rule: less_induct)
  case (less k)
  show ?case
  proof (cases "k = 1")
    case True
    then show ?thesis by (simp add: generate_unfold)
  next
    case False
    have "gen_body k i (A', R') = (fst (gen_body k i (A', [])), R' @ snd (gen_body k i (A', [])))"
      if "i \<in> set [0..<k]" for i A' R'
    proof -
      have "k - 1 < k" using that by auto
      from less [OF this, of A' R'] show ?thesis
        by (simp add: gen_body_def Let_def)
    qed
    from fold_append_outs [of "[0..<k]" "gen_body k" A R, OF this] show ?thesis
      using False by (simp add: generate_unfold)
  qed
qed

lemma fold_simulation:
  assumes a: "\<And>i A R. i \<in> set xs \<Longrightarrow> gbody i (A, R) = (fst (gbody i (A, [])), R @ snd (gbody i (A, [])))"
    and c: "\<And>i A b. i \<in> set xs \<Longrightarrow>
      cbody i (A, b) = (fst (gbody i (A, [])), fold lf (snd (gbody i (A, []))) b)"
  shows "fold cbody xs (A, b) = (fst (fold gbody xs (A, [])), fold lf (snd (fold gbody xs (A, []))) b)"
  using assms
proof (induction xs arbitrary: A b)
  case Nil
  show ?case by simp
next
  case (Cons x xs)
  define A1 where "A1 = fst (gbody x (A, []))"
  define O1 where "O1 = snd (gbody x (A, []))"
  have g1: "gbody x (A, []) = (A1, O1)" by (simp add: A1_def O1_def)
  have c1: "cbody x (A, b) = (A1, fold lf O1 b)"
    using Cons.prems(2) [of x A b] by (simp add: A1_def O1_def)
  have IH: "fold cbody xs (A1, b') =
      (fst (fold gbody xs (A1, [])), fold lf (snd (fold gbody xs (A1, []))) b')" for b'
  proof (rule Cons.IH)
    show "gbody i (A, R) = (fst (gbody i (A, [])), R @ snd (gbody i (A, [])))" if "i \<in> set xs" for i A R
      using that by (intro Cons.prems(1)) simp
    show "cbody i (A, b) = (fst (gbody i (A, [])), fold lf (snd (gbody i (A, []))) b)" if "i \<in> set xs" for i A b
      using that by (intro Cons.prems(2)) simp
  qed
  have ap: "fold gbody xs (A1, O1) = (fst (fold gbody xs (A1, [])), O1 @ snd (fold gbody xs (A1, [])))"
    by (rule fold_append_outs, rule Cons.prems(1)) simp
  show ?case
    by (simp add: g1 c1 IH ap)
qed

lemma canonical_generate_sim:
  "canonical_generate T g k (A, best) =
     (fst (generate k (A, [])), fold (leaf T g) (snd (generate k (A, []))) best)"
proof (induction k arbitrary: A best rule: less_induct)
  case (less k)
  show ?case
  proof (cases "k = 1")
    case True
    then show ?thesis by (simp add: generate_unfold canonical_generate_unfold)
  next
    case False
    have a: "gen_body k i (A', R') = (fst (gen_body k i (A', [])), R' @ snd (gen_body k i (A', [])))"
      for i A' R'
      using generate_append [of "k - 1" A' R'] by (simp add: gen_body_def Let_def)
    have c: "canon_body T g k i (A', b) =
        (fst (gen_body k i (A', [])), fold (leaf T g) (snd (gen_body k i (A', []))) b)"
      if "i \<in> set [0..<k]" for i A' b
    proof -
      have "k - 1 < k" using that by auto
      from less [OF this, of A' b] show ?thesis
        by (simp add: gen_body_def canon_body_def Let_def)
    qed
    from fold_simulation [of "[0..<k]" "gen_body k" "canon_body T g k" "leaf T g" A best, OF a c]
    show ?thesis using False by (simp add: generate_unfold canonical_generate_unfold)
  qed
qed

lemma fold_leaf_Min:
  "fold (leaf T g) ps b = Min (insert b ((\<lambda>p. relabel T p g) ` set ps))"
proof (induction ps arbitrary: b)
  case Nil
  show ?case by simp
next
  case (Cons p ps)
  have l: "leaf T g p b = min b (relabel T p g)"
    by (auto simp: leaf_def Let_def min_def)
  have "Min (insert (min b (relabel T p g)) ((\<lambda>p. relabel T p g) ` set ps)) =
      Min (insert b (insert (relabel T p g) ((\<lambda>p. relabel T p g) ` set ps)))"
  proof (cases "set ps = {}")
    case True
    then show ?thesis by simp
  next
    case False
    then show ?thesis by (simp add: min.assoc)
  qed
  then show ?case by (simp add: Cons.IH l)
qed


text \<open>The relabellings of \<open>g\<close> under all permutations of the \<open>n\<close> vertices.\<close>

definition orbit :: "tables \<Rightarrow> Graph \<Rightarrow> Graph set" where
  "orbit T g = (\<lambda>p. relabel T p g) ` {p. mset p = mset [0..<nV T]}"

lemma orbit_finite: "finite (orbit T g)"
  unfolding orbit_def set_permutations [symmetric] by simp

lemma canonical_Min_insert:
  assumes "n \<noteq> 0"
  shows "canonical (initEdges n) g = Min (insert g (orbit (initEdges n) g))"
proof -
  define T where "T = initEdges n"
  have "snd (generate n ([0..<n], [])) = permutations n"
    using assms by (simp add: permutations_def)
  then have "canonical T g = Min (insert g ((\<lambda>p. relabel T p g) ` set (permutations n)))"
    by (simp add: canonical_def canonical_generate_sim T_def initEdges_tables(1) fold_leaf_Min)
  also have "(\<lambda>p. relabel T p g) ` set (permutations n) = orbit T g"
    by (simp add: orbit_def set_permutations T_def initEdges_tables(1))
  finally show ?thesis by (simp add: T_def)
qed

lemma canonical_Min:
  assumes n: "n \<le> 11" and g: "take_bit (numEdges (initEdges n)) g = g"
  shows "canonical (initEdges n) g = Min (orbit (initEdges n) g)"
proof (cases "n = 0")
  case True
  have "numEdges (initEdges n) = 0" using True by (simp add: initEdges_tables(2))
  then have g0: "g = 0" using g by simp
  have "generate 0 ([], []) = ([], [])" by (simp add: generate_unfold)
  then have "canonical (initEdges n) g = g"
    using True by (simp add: canonical_def canonical_generate_sim initEdges_tables(1))
  moreover have "orbit (initEdges n) g = {0}"
    using True by (simp add: orbit_def initEdges_tables relabel_def)
  ultimately show ?thesis using g0 by simp
next
  case False
  define T where "T = initEdges n"
  have "relabel T [0..<n] g = g" unfolding T_def by (rule relabel_id [OF n g])
  then have "g \<in> orbit T g"
    unfolding orbit_def T_def initEdges_tables(1) by (metis (mono_tags, lifting) imageI mem_Collect_eq)
  then have "insert g (orbit T g) = orbit T g" by auto
  then show ?thesis using canonical_Min_insert [OF False, of g] by (simp add: T_def)
qed

lemma orbit_relabel:
  assumes n: "n \<le> 11" and p: "mset p = mset [0..<n]"
  shows "orbit (initEdges n) (relabel (initEdges n) p g) = orbit (initEdges n) g"
proof (intro equalityI subsetI)
  fix h assume "h \<in> orbit (initEdges n) (relabel (initEdges n) p g)"
  then obtain q where q: "mset q = mset [0..<n]" "h = relabel (initEdges n) q (relabel (initEdges n) p g)"
    by (auto simp: orbit_def initEdges_tables(1))
  then have "h = relabel (initEdges n) (compose q p) g" by (simp add: relabel_compose [OF n p])
  moreover have "mset (compose q p) = mset [0..<n]" by (rule compose_perm [OF q(1) p])
  ultimately show "h \<in> orbit (initEdges n) g"
    unfolding orbit_def initEdges_tables(1) by blast
next
  fix h assume "h \<in> orbit (initEdges n) g"
  then obtain q where q: "mset q = mset [0..<n]" "h = relabel (initEdges n) q g"
    by (auto simp: orbit_def initEdges_tables(1))
  from perm_inverse [OF p] obtain pinv where
    pinv: "mset pinv = mset [0..<n]" "compose pinv p = [0..<n]" by blast
  define r where "r = compose q pinv"
  have r: "mset r = mset [0..<n]" unfolding r_def by (rule compose_perm [OF q(1) pinv(1)])
  have lq: "length q = n" using perm_props(1) [OF q(1)] .
  have "x < length pinv" if "x \<in> set p" for x
    using that perm_props(3) [OF p] perm_props(1) [OF pinv(1)] by simp
  then have "compose r p = map ((!) q) (compose pinv p)" by (simp add: r_def compose_def)
  also have "\<dots> = q" unfolding pinv(2) using lq map_nth [of q] by simp
  finally have "relabel (initEdges n) r (relabel (initEdges n) p g) = h"
    by (simp add: relabel_compose [OF n p r] q(2))
  then show "h \<in> orbit (initEdges n) (relabel (initEdges n) p g)"
    unfolding orbit_def initEdges_tables(1) using r by blast
qed

section \<open>Canonical forms and relabelled graphs\<close>

text \<open>
  \<open>H\<close> is \<open>G\<close> relabelled by the permutation \<open>f\<close> of the vertices: \<open>f a\<close> and \<open>f b\<close> are
  joined in \<open>H\<close> exactly when \<open>a\<close> and \<open>b\<close> are joined in \<open>G\<close>. Edges are read off the
  masks with \<open>hasEdge\<close>.
\<close>

definition relabelled :: "tables \<Rightarrow> (nat \<Rightarrow> nat) \<Rightarrow> Graph \<Rightarrow> Graph \<Rightarrow> bool" where
  "relabelled T f G H \<longleftrightarrow>
     bij_betw f {..<nV T} {..<nV T} \<and>
     (\<forall>a < nV T. \<forall>b < nV T. a \<noteq> b \<longrightarrow> (hasEdge T H (f a) (f b) \<longleftrightarrow> hasEdge T G a b))"

lemma graph_eqI:
  assumes G: "take_bit (numEdges (initEdges n)) G = G"
    and H: "take_bit (numEdges (initEdges n)) H = H"
    and e: "\<And>i j. i < j \<Longrightarrow> j < n \<Longrightarrow> hasEdge (initEdges n) G i j = hasEdge (initEdges n) H i j"
  shows "G = H"
proof (rule bit_eqI)
  fix b
  show "bit G b \<longleftrightarrow> bit H b"
  proof (cases "b < numEdges (initEdges n)")
    case True
    from edgePairs_props [OF True] obtain i j where
      ij: "i < j" "j < n" "edgeIndex (initEdges n) ! i ! j = b" by blast
    from e [OF ij(1,2)] ij show ?thesis by (simp add: hasEdge_bit min_def max_def)
  next
    case False
    then show ?thesis using graph_bit_less [OF G, of b] graph_bit_less [OF H, of b] by blast
  qed
qed

lemma relabel_hasEdge:
  assumes n: "n \<le> 11" and p: "mset p = mset [0..<n]"
    and ab: "a < n" "b < n" "a \<noteq> b"
  shows "hasEdge (initEdges n) (relabel (initEdges n) p G) (p ! a) (p ! b) \<longleftrightarrow>
     hasEdge (initEdges n) G a b"
proof -
  define T where "T = initEdges n"
  define i j where "i = min a b" and "j = max a b"
  have ij: "i < j" "j < n" using ab by (auto simp: i_def j_def)
  define idx where "idx = edgeIndex T ! i ! j"
  have idx: "idx < numEdges T" "edgePairs T ! idx = (i, j)"
    unfolding idx_def T_def using edgeIndex_props [OF ij] by simp_all
  have em: "em T p idx = edgeIndex T ! min (p ! a) (p ! b) ! max (p ! a) (p ! b)"
    by (auto simp: em_def idx Let_def i_def j_def min_def max_def)
  have "hasEdge T (relabel T p G) (p ! a) (p ! b) \<longleftrightarrow>
      (\<exists>k < numEdges T. bit G k \<and> em T p k = em T p idx)"
    unfolding T_def hasEdge_bit relabel_bits_initEdges [OF n p] em [unfolded T_def] ..
  also have "\<dots> \<longleftrightarrow> bit G idx"
    using em_inj [OF p _ idx(1) [unfolded T_def]] idx(1) unfolding T_def by blast
  also have "\<dots> \<longleftrightarrow> hasEdge T G a b"
    by (simp add: hasEdge_bit idx_def i_def j_def)
  finally show ?thesis by (simp add: T_def)
qed

lemma relabelled_relabel:
  assumes n: "n \<le> 11" and p: "mset p = mset [0..<n]"
  shows "relabelled (initEdges n) ((!) p) G (relabel (initEdges n) p G)"
  unfolding relabelled_def initEdges_tables(1)
  using perm_bij [OF p] relabel_hasEdge [OF n p] by blast

lemma relabelled_unique:
  assumes n: "n \<le> 11"
    and H: "take_bit (numEdges (initEdges n)) H = H"
    and r: "relabelled (initEdges n) f G H"
  shows "mset (map f [0..<n]) = mset [0..<n] \<and> H = relabel (initEdges n) (map f [0..<n]) G"
proof -
  define T where "T = initEdges n"
  define p where "p = map f [0..<n]"
  from r have f: "bij_betw f {..<n} {..<n}"
    and e: "\<And>a b. a < n \<Longrightarrow> b < n \<Longrightarrow> a \<noteq> b \<Longrightarrow> hasEdge T H (f a) (f b) = hasEdge T G a b"
    unfolding relabelled_def T_def initEdges_tables(1) by blast+
  have p: "mset p = mset [0..<n]" unfolding p_def by (rule perm_of_bij [OF f])
  have pn: "p ! i = f i" if "i < n" for i using that by (simp add: p_def)
  have "H = relabel T p G"
    unfolding T_def
  proof (rule graph_eqI [OF H relabel_in_range [OF n p]])
    fix i j assume ij: "i < j" "j < n"
    have im: "f ` {..<n} = {..<n}" using f by (rule bij_betw_imp_surj_on)
    have "i \<in> f ` {..<n}" "j \<in> f ` {..<n}" unfolding im using ij by simp_all
    then obtain a b where a: "a < n" "f a = i" and b: "b < n" "f b = j" by auto
    have ab: "a \<noteq> b" using a b ij by auto
    have "hasEdge T H i j = hasEdge T G a b" using e [OF a(1) b(1) ab] a b by simp
    also have "\<dots> = hasEdge T (relabel T p G) (p ! a) (p ! b)"
      unfolding T_def by (rule relabel_hasEdge [OF n p a(1) b(1) ab, symmetric])
    finally show "hasEdge (initEdges n) H i j = hasEdge (initEdges n) (relabel (initEdges n) p G) i j"
      using a b pn by (simp add: T_def)
  qed
  with p show ?thesis by (simp add: p_def T_def)
qed

text \<open>
  Claim C7 as the code has it. For \<open>n \<le> 11\<close>, the sizes whose \<open>C(n,2)\<close> edge ids fit the
  64-bit mask, and graphs \<open>G\<close> and \<open>H\<close> on \<open>n\<close> vertices, \<open>H\<close> being \<open>G\<close> relabelled by a
  permutation of the vertices: \<open>canonical\<close> is idempotent; it gives \<open>G\<close> and \<open>H\<close> the same
  mask; this mask is a graph on \<open>n\<close> vertices and itself a relabelling of \<open>G\<close>; and it is
  at most \<open>H\<close>, so it is the least mask among the relabellings of \<open>G\<close>.
\<close>

theorem canonical_idempotent_invariant:
  assumes n: "n \<le> 11"
    and G: "take_bit (numEdges (initEdges n)) G = G"
    and H: "take_bit (numEdges (initEdges n)) H = H"
    and r: "relabelled (initEdges n) f G H"
  shows "canonical (initEdges n) (canonical (initEdges n) G) = canonical (initEdges n) G \<and>
    canonical (initEdges n) H = canonical (initEdges n) G \<and>
    (\<exists>f'. relabelled (initEdges n) f' G (canonical (initEdges n) G)) \<and>
    take_bit (numEdges (initEdges n)) (canonical (initEdges n) G) = canonical (initEdges n) G \<and>
    canonical (initEdges n) G \<le> H"
proof -
  define T where "T = initEdges n"
  define p where "p = map f [0..<n]"
  from relabelled_unique [OF n H r] have p: "mset p = mset [0..<n]" and Hp: "H = relabel T p G"
    by (simp_all add: p_def T_def)
  have inv: "canonical T (relabel T q G) = canonical T G" if q: "mset q = mset [0..<n]" for q
    unfolding T_def
    by (simp only: canonical_Min [OF n relabel_in_range [OF n q]] canonical_Min [OF n G]
        orbit_relabel [OF n q])
  have "[0..<n] \<in> {p. mset p = mset [0..<n]}" by simp
  then have "orbit T G \<noteq> {}" unfolding orbit_def T_def initEdges_tables(1) by blast
  then have "Min (orbit T G) \<in> orbit T G" by (intro Min_in orbit_finite)
  then obtain q where q: "mset q = mset [0..<n]" "canonical T G = relabel T q G"
    unfolding T_def canonical_Min [OF n G, symmetric]
    by (auto simp: orbit_def initEdges_tables(1))
  have idem: "canonical T (canonical T G) = canonical T G"
    unfolding q(2) inv [OF q(1)] by (rule refl)
  have rel: "\<exists>f'. relabelled T f' G (canonical T G)"
    unfolding q(2) unfolding T_def using relabelled_relabel [OF n q(1), of G] by blast
  have rng: "take_bit (numEdges T) (canonical T G) = canonical T G"
    unfolding q(2) unfolding T_def by (rule relabel_in_range [OF n q(1)])
  have "H \<in> orbit T G" unfolding Hp orbit_def T_def initEdges_tables(1) using p by blast
  then have "Min (orbit T G) \<le> H" by (intro Min_le orbit_finite)
  then have le: "canonical T G \<le> H" unfolding T_def canonical_Min [OF n G] .
  have inv2: "canonical T H = canonical T G" unfolding Hp by (rule inv [OF p])
  show ?thesis unfolding T_def [symmetric] by (intro conjI idem inv2 rel rng le)
qed

lemma perm_example: "mset [1, 0, 2, 3] = mset [0..<4]"
  by (rule perm_from_distinct) auto

lemma relabelled_example: "relabelled (initEdges 4) ((!) [1, 0, 2, 3]) 37 49"
proof -
  have "list_all (\<lambda>a. list_all (\<lambda>b. a \<noteq> b \<longrightarrow>
      (hasEdge (initEdges 4) 49 ([1, 0, 2, 3] ! a) ([1, 0, 2, 3] ! b) \<longleftrightarrow>
       hasEdge (initEdges 4) 37 a b)) [0..<4]) [0..<4]"
    by code_simp
  then have "\<forall>a < 4. \<forall>b < 4. a \<noteq> b \<longrightarrow>
      (hasEdge (initEdges 4) 49 ([1, 0, 2, 3] ! a) ([1, 0, 2, 3] ! b) \<longleftrightarrow>
       hasEdge (initEdges 4) 37 a b)"
    unfolding list_all_iff by simp
  then show ?thesis
    unfolding relabelled_def initEdges_tables(1) using perm_bij [OF perm_example] by blast
qed

theorem canonical_idempotent_invariant_witness:
  "canonical (initEdges 4) (canonical (initEdges 4) 37) = canonical (initEdges 4) 37 \<and>
   canonical (initEdges 4) 49 = canonical (initEdges 4) 37 \<and>
   canonical (initEdges 4) 37 \<le> 49"
proof -
  have g: "take_bit (numEdges (initEdges 4)) (37 :: Graph) = 37"
    "take_bit (numEdges (initEdges 4)) (49 :: Graph) = 49"
    by (simp_all add: initEdges_tables(2))
  have n: "(4 :: nat) \<le> 11" by simp
  from canonical_idempotent_invariant [OF n g relabelled_example] show ?thesis by blast
qed

section \<open>Twelve vertices\<close>

text \<open>
  canonicalize.go takes any \<open>n \<ge> 2\<close>. With twelve vertices there are 66 edge ids, and the
  shifts by 64 and 65, the ids of the pairs \<open>(9, 11)\<close> and \<open>(10, 11)\<close>, give 0: an edge
  relabelled onto one of these two pairs is lost.
\<close>

lemma pairs12:
  "all_pairs 12 ! 0 = (0, 1)" "all_pairs 12 ! 21 = (2, 3)"
  "all_pairs 12 ! 64 = (9, 11)" "all_pairs 12 ! 65 = (10, 11)"
  by code_simp+

lemma numEdges12: "numEdges (initEdges 12) = 66"
  by (simp add: initEdges_tables(2))

lemma edgeIndex12:
  "edgeIndex (initEdges 12) ! 0 ! 1 = 0" "edgeIndex (initEdges 12) ! 2 ! 3 = 21"
  "edgeIndex (initEdges 12) ! 10 ! 11 = 65"
  using initEdges_tables(5) [of 0 12] initEdges_tables(5) [of 21 12] initEdges_tables(5) [of 65 12]
  by (simp_all add: pairs12 all_pairs_length)

lemma high_ids12:
  assumes "i < j" "j < 12" "64 \<le> edgeIndex (initEdges 12) ! i ! j"
  shows "j = 11"
proof -
  define k where "k = edgeIndex (initEdges 12) ! i ! j"
  have "k < 66" "edgePairs (initEdges 12) ! k = (i, j)"
    using edgeIndex_props(1,2) [OF assms(1,2)] by (simp_all add: k_def numEdges12)
  moreover have "64 \<le> k" using assms(3) by (simp add: k_def)
  ultimately have "k = 64 \<or> k = 65" "all_pairs 12 ! k = (i, j)"
    by (auto simp: initEdges_tables(3))
  then show ?thesis using pairs12(3,4) by auto
qed

lemma two_edges_bits: "bit (2097153 :: Graph) b \<longleftrightarrow> b = 0 \<or> b = 21"
proof -
  have "(2097153 :: Graph) = setbit (setbit 0 0) 21" by (simp add: setbit_def)
  then show ?thesis by (simp only: bit_setbit) auto
qed

lemma em12:
  assumes p: "mset p = mset [0..<12]"
  shows "em (initEdges 12) p 0 =
      edgeIndex (initEdges 12) ! min (p ! 0) (p ! 1) ! max (p ! 0) (p ! 1)"
    and "em (initEdges 12) p 21 =
      edgeIndex (initEdges 12) ! min (p ! 2) (p ! 3) ! max (p ! 2) (p ! 3)"
  by (simp_all add: em_def initEdges_tables(3) pairs12 Let_def min_def max_def)

lemma relabel12_nonzero:
  assumes p: "mset p = mset [0..<12]"
  shows "relabel (initEdges 12) p 2097153 \<noteq> 0"
proof
  assume z: "relabel (initEdges 12) p 2097153 = 0"
  have no: "\<not> em (initEdges 12) p idx < 64" if "idx = 0 \<or> idx = 21" for idx
  proof
    assume "em (initEdges 12) p idx < 64"
    moreover have "idx < numEdges (initEdges 12)" "bit (2097153 :: Graph) idx"
      using that by (auto simp: numEdges12 two_edges_bits)
    ultimately have "bit (relabel (initEdges 12) p 2097153) (em (initEdges 12) p idx)"
      unfolding relabel_bits by blast
    then show False by (simp add: z)
  qed
  have lt: "p ! 0 < 12" "p ! 1 < 12" "p ! 2 < 12" "p ! 3 < 12"
    using perm_nth_less [OF p] by simp_all
  have ne: "p ! 0 \<noteq> p ! 1" "p ! 2 \<noteq> p ! 3" "p ! 0 \<noteq> p ! 2" "p ! 0 \<noteq> p ! 3"
    "p ! 1 \<noteq> p ! 2" "p ! 1 \<noteq> p ! 3"
    using perm_nth_inj [OF p, of 0 1] perm_nth_inj [OF p, of 2 3] perm_nth_inj [OF p, of 0 2]
      perm_nth_inj [OF p, of 0 3] perm_nth_inj [OF p, of 1 2] perm_nth_inj [OF p, of 1 3]
    by auto
  have "max (p ! 0) (p ! 1) = 11"
    by (rule high_ids12 [where i = "min (p ! 0) (p ! 1)"])
      (use no [of 0] lt ne in \<open>auto simp: em12 [OF p] min_def max_def\<close>)
  moreover have "max (p ! 2) (p ! 3) = 11"
    by (rule high_ids12 [where i = "min (p ! 2) (p ! 3)"])
      (use no [of 21] lt ne in \<open>auto simp: em12 [OF p] min_def max_def\<close>)
  ultimately show False using ne by (auto simp: max_def split: if_splits)
qed

lemma perm12a: "mset [0, 1, 10, 11, 2, 3, 4, 5, 6, 7, 8, 9] = mset [0..<12]"
proof (rule perm_from_distinct)
  show "distinct [0, 1, 10, 11, 2, 3, 4, 5, 6, 7, 8, 9 :: nat]" by simp
  have "set [0..<12] = set [0, 1, 10, 11, 2, 3, 4, 5, 6, 7, 8, 9 :: nat]" by code_simp
  then show "set [0, 1, 10, 11, 2, 3, 4, 5, 6, 7, 8, 9] = {0..<12 :: nat}"
    by (simp only: set_upt)
qed

lemma perm12b: "mset [10, 11, 0, 1, 2, 3, 4, 5, 6, 7, 8, 9] = mset [0..<12]"
proof (rule perm_from_distinct)
  show "distinct [10, 11, 0, 1, 2, 3, 4, 5, 6, 7, 8, 9 :: nat]" by simp
  have "set [0..<12] = set [10, 11, 0, 1, 2, 3, 4, 5, 6, 7, 8, 9 :: nat]" by code_simp
  then show "set [10, 11, 0, 1, 2, 3, 4, 5, 6, 7, 8, 9] = {0..<12 :: nat}"
    by (simp only: set_upt)
qed

lemma em12a:
  "em (initEdges 12) [0, 1, 10, 11, 2, 3, 4, 5, 6, 7, 8, 9] 0 = 0"
  "em (initEdges 12) [0, 1, 10, 11, 2, 3, 4, 5, 6, 7, 8, 9] 21 = 65"
  using edgeIndex12 by (simp_all add: em_def initEdges_tables(3) pairs12 Let_def)

lemma em12b: "em (initEdges 12) [10, 11, 0, 1, 2, 3, 4, 5, 6, 7, 8, 9] 0 = 65"
  using edgeIndex12 by (simp add: em_def initEdges_tables(3) pairs12 Let_def)


lemma relabel12a: "relabel (initEdges 12) [0, 1, 10, 11, 2, 3, 4, 5, 6, 7, 8, 9] 2097153 = 1"
proof (rule bit_eqI)
  fix b
  define p :: "nat list" where "p = [0, 1, 10, 11, 2, 3, 4, 5, 6, 7, 8, 9]"
  have e: "em (initEdges 12) p 0 = 0" "em (initEdges 12) p 21 = 65"
    unfolding p_def by (rule em12a)+
  have "bit (relabel (initEdges 12) p 2097153) b \<longleftrightarrow>
      (\<exists>idx < 66. (idx = 0 \<or> idx = 21) \<and> em (initEdges 12) p idx = b \<and> b < 64)"
    unfolding relabel_bits two_edges_bits numEdges12 ..
  also have "\<dots> \<longleftrightarrow> b = 0"
  proof
    assume "\<exists>idx < 66. (idx = 0 \<or> idx = 21) \<and> em (initEdges 12) p idx = b \<and> b < 64"
    then obtain idx where "idx = 0 \<or> idx = 21" "em (initEdges 12) p idx = b" "b < 64" by blast
    then show "b = 0" using e by auto
  next
    assume "b = 0"
    then have "(0 :: nat) < 66 \<and> (0 = (0 :: nat) \<or> (0 :: nat) = 21) \<and> em (initEdges 12) p 0 = b \<and> b < 64"
      using e(1) by simp
    then show "\<exists>idx < 66. (idx = 0 \<or> idx = 21) \<and> em (initEdges 12) p idx = b \<and> b < 64"
      by (rule exI [of _ 0])
  qed
  finally show "bit (relabel (initEdges 12) [0, 1, 10, 11, 2, 3, 4, 5, 6, 7, 8, 9] 2097153) b \<longleftrightarrow>
      bit (1 :: Graph) b"
    by (simp add: bit_1_iff p_def)
qed

lemma relabel12b: "relabel (initEdges 12) [10, 11, 0, 1, 2, 3, 4, 5, 6, 7, 8, 9] 1 = 0"
proof (rule bit_eqI)
  fix b
  define p :: "nat list" where "p = [10, 11, 0, 1, 2, 3, 4, 5, 6, 7, 8, 9]"
  have e: "em (initEdges 12) p 0 = 65" unfolding p_def by (rule em12b)
  have "bit (relabel (initEdges 12) p 1) b \<longleftrightarrow>
      (\<exists>idx < 66. idx = 0 \<and> em (initEdges 12) p idx = b \<and> b < 64)"
    unfolding relabel_bits numEdges12 bit_1_iff ..
  also have "\<dots> \<longleftrightarrow> False" using e by auto
  finally show "bit (relabel (initEdges 12) [10, 11, 0, 1, 2, 3, 4, 5, 6, 7, 8, 9] 1) b \<longleftrightarrow>
      bit (0 :: Graph) b"
    by (simp add: p_def)
qed

lemma orbit_member:
  "mset p = mset [0..<n] \<Longrightarrow> relabel (initEdges n) p g \<in> orbit (initEdges n) g"
  unfolding orbit_def initEdges_tables(1) by (rule imageI) simp

lemma word_nonzero_ge1: "(y :: Graph) \<noteq> 0 \<Longrightarrow> 1 \<le> y"
proof -
  assume "y \<noteq> 0"
  then have "\<not> y < 1" by (simp only: word_less_1 not_False_eq_True)
  then show "1 \<le> y" by (simp only: not_less)
qed

lemma canonical12_two_edges: "canonical (initEdges 12) 2097153 = 1"
proof -
  have "Min (insert 2097153 (orbit (initEdges 12) 2097153)) = 1"
  proof (rule Min_eqI)
    show "finite (insert 2097153 (orbit (initEdges 12) 2097153))"
      by (rule finite.insertI [OF orbit_finite])
    have "1 \<in> orbit (initEdges 12) 2097153"
      using orbit_member [OF perm12a, of 2097153] unfolding relabel12a .
    then show "1 \<in> insert 2097153 (orbit (initEdges 12) 2097153)" by (rule insertI2)
    fix y assume "y \<in> insert 2097153 (orbit (initEdges 12) 2097153)"
    then consider "y = 2097153" | "y \<in> orbit (initEdges 12) 2097153" by blast
    then have "y \<noteq> 0"
    proof cases
      case 1
      then show ?thesis by simp
    next
      case 2
      then obtain p where "mset p = mset [0..<12]" "y = relabel (initEdges 12) p 2097153"
        unfolding orbit_def initEdges_tables(1) by blast
      then show ?thesis using relabel12_nonzero by simp
    qed
    then show "1 \<le> y" by (rule word_nonzero_ge1)
  qed
  moreover have n: "(12 :: nat) \<noteq> 0" by simp
  ultimately show ?thesis unfolding canonical_Min_insert [OF n] by blast
qed

lemma canonical12_one_edge: "canonical (initEdges 12) 1 = 0"
proof -
  have "Min (insert 1 (orbit (initEdges 12) 1)) = 0"
  proof (rule Min_eqI)
    show "finite (insert 1 (orbit (initEdges 12) 1))"
      by (rule finite.insertI [OF orbit_finite])
    have "0 \<in> orbit (initEdges 12) 1"
      using orbit_member [OF perm12b, of 1] unfolding relabel12b .
    then show "0 \<in> insert 1 (orbit (initEdges 12) 1)" by (rule insertI2)
    fix y :: Graph show "0 \<le> y" by simp
  qed
  moreover have n: "(12 :: nat) \<noteq> 0" by simp
  ultimately show ?thesis unfolding canonical_Min_insert [OF n] by blast
qed

text \<open>
  The claim as stated is for every \<open>n\<close>. On twelve vertices the graph with the two
  edges \<open>{0, 1}\<close> and \<open>{2, 3}\<close> (ids 0 and 21) has the canonical form 1, the single edge
  \<open>{0, 1}\<close>, whose own canonical form is 0, the graph without edges: \<open>canonical\<close> is not
  idempotent there.
\<close>

theorem canonical_twelve_counterexample:
  "canonical (initEdges 12) (canonical (initEdges 12) 2097153) \<noteq>
   canonical (initEdges 12) 2097153"
  unfolding canonical12_two_edges canonical12_one_edge by simp

section \<open>The SAT reduction (find\_fourth/main.go)\<close>

text \<open>
  \<open>solveSAT\<close> builds a list of clauses, each a list of non-zero integers, hands it to the
  solver library and decodes the model. Items and slots are the loop variables
  \<open>0 \<le> item, slot < n\<close>, so they are naturals here; literals are integers.
\<close>

definition varIdx :: "nat \<Rightarrow> nat \<Rightarrow> nat \<Rightarrow> int" where
  "varIdx n item slot = int (item * n + slot + 1)"

text \<open>Constraints 1 to 4: every item in exactly one slot, every slot with exactly one item.\<close>

definition constraint1 :: "nat \<Rightarrow> int list list" where
  "constraint1 n = map (\<lambda>item. map (\<lambda>slot. varIdx n item slot) [0..<n]) [0..<n]"

definition constraint2 :: "nat \<Rightarrow> int list list" where
  "constraint2 n =
     concat (map (\<lambda>item.
       concat (map (\<lambda>s1. map (\<lambda>s2. [- varIdx n item s1, - varIdx n item s2]) [s1 + 1..<n])
                   [0..<n]))
       [0..<n])"

definition constraint3 :: "nat \<Rightarrow> int list list" where
  "constraint3 n = map (\<lambda>slot. map (\<lambda>item. varIdx n item slot) [0..<n]) [0..<n]"

definition constraint4 :: "nat \<Rightarrow> int list list" where
  "constraint4 n =
     concat (map (\<lambda>slot.
       concat (map (\<lambda>i1. map (\<lambda>i2. [- varIdx n i1 slot, - varIdx n i2 slot]) [i1 + 1..<n])
                   [0..<n]))
       [0..<n])"

text \<open>
  Constraint 5. The state of the two inner loops is \<open>clauses\<close>, \<open>nextVar\<close> and \<open>auxVars\<close>;
  for every adjacent ordered pair of slots a fresh variable \<open>aux\<close> is taken and the three
  clauses of \<open>aux \<longleftrightarrow> a@s1 \<and> b@s2\<close> are appended. After the loops the clause \<open>auxVars\<close>
  is appended.
\<close>

definition aux_step ::
  "nat \<Rightarrow> bool list list \<Rightarrow> nat \<Rightarrow> nat \<Rightarrow> nat \<Rightarrow> nat \<Rightarrow>
   int list list \<times> int \<times> int list \<Rightarrow> int list list \<times> int \<times> int list" where
  "aux_step n adjMatrix a b s1 s2 = (\<lambda>(clauses, nextVar, auxVars).
     if adjMatrix ! s1 ! s2 then
       let aux = nextVar
       in (clauses @ [[- aux, varIdx n a s1], [- aux, varIdx n b s2],
                      [- varIdx n a s1, - varIdx n b s2, aux]],
           nextVar + 1, auxVars @ [aux])
     else (clauses, nextVar, auxVars))"

definition pair_step ::
  "nat \<Rightarrow> bool list list \<Rightarrow> nat \<times> nat \<Rightarrow> int list list \<times> int \<Rightarrow> int list list \<times> int" where
  "pair_step n adjMatrix pair = (\<lambda>(clauses, nextVar).
     let (a, b) = pair;
         (clauses', nextVar', auxVars) =
            fold (\<lambda>s1. fold (aux_step n adjMatrix a b s1) [0..<n]) [0..<n] (clauses, nextVar, [])
     in (clauses' @ [auxVars], nextVar'))"

definition solveSAT_clauses :: "nat \<Rightarrow> (nat \<times> nat) list \<Rightarrow> bool list list \<Rightarrow> int list list" where
  "solveSAT_clauses n uncoveredPairs adjMatrix =
     fst (fold (pair_step n adjMatrix) uncoveredPairs
            (constraint1 n @ constraint2 n @ constraint3 n @ constraint4 n, int (n * n + 1)))"

text \<open>
  A model is the solver's \<open>[]bool\<close>, indexed by variable minus one; \<open>var_true\<close> is the
  decoder's test \<open>v <= len(model) && model[v-1]\<close>. A clause list is satisfiable when some
  model makes a literal of every clause true.
\<close>

definition var_true :: "bool list \<Rightarrow> int \<Rightarrow> bool" where
  "var_true model v \<longleftrightarrow> 1 \<le> v \<and> v \<le> int (length model) \<and> model ! (nat v - 1)"

definition lit_true :: "bool list \<Rightarrow> int \<Rightarrow> bool" where
  "lit_true model l = (if 0 < l then var_true model l else \<not> var_true model (- l))"

definition satisfies :: "bool list \<Rightarrow> int list list \<Rightarrow> bool" where
  "satisfies model clauses \<longleftrightarrow> list_all (\<lambda>clause. list_ex (lit_true model) clause) clauses"

definition satisfiable :: "int list list \<Rightarrow> bool" where
  "satisfiable clauses \<longleftrightarrow> (\<exists>model. satisfies model clauses)"

text \<open>
  The extraction loop: for each item the first slot whose variable is true receives the
  item (\<open>break\<close>); \<open>arr3\<close> starts as \<open>n\<close> zeros.
\<close>

definition decode_item :: "nat \<Rightarrow> bool list \<Rightarrow> nat \<Rightarrow> nat list \<Rightarrow> nat list" where
  "decode_item n model item arr3 =
     (case find (\<lambda>slot. var_true model (varIdx n item slot)) [0..<n] of
        None \<Rightarrow> arr3
      | Some slot \<Rightarrow> arr3[slot := item])"

definition decode_model :: "nat \<Rightarrow> bool list \<Rightarrow> nat list" where
  "decode_model n model = fold (decode_item n model) [0..<n] (replicate n 0)"

text \<open>
  \<open>solveSAT\<close> itself. The solver of the library is the parameter \<open>solver\<close>: \<open>None\<close> stands
  for any status other than \<open>Sat\<close>, \<open>Some model\<close> for \<open>Sat\<close> with \<open>s.Model()\<close>.
\<close>

definition solveSAT ::
  "(int list list \<Rightarrow> bool list option) \<Rightarrow> nat \<Rightarrow> (nat \<times> nat) list \<Rightarrow> bool list list \<Rightarrow>
   bool \<times> nat list" where
  "solveSAT solver n uncoveredPairs adjMatrix =
     (case solver (solveSAT_clauses n uncoveredPairs adjMatrix) of
        None \<Rightarrow> (False, [])
      | Some model \<Rightarrow> (True, decode_model n model))"

text \<open>
  What the claim asks of an arrangement: \<open>arr3\<close> is a bijection from slots to items and
  every uncovered pair sits on two adjacent slots.
\<close>

definition covers_pairs :: "nat \<Rightarrow> bool list list \<Rightarrow> (nat \<times> nat) list \<Rightarrow> nat list \<Rightarrow> bool" where
  "covers_pairs n adjMatrix uncoveredPairs arr3 \<longleftrightarrow>
     list_all (\<lambda>(a, b). \<exists>s < n. \<exists>t < n. arr3 ! s = a \<and> arr3 ! t = b \<and> adjMatrix ! s ! t)
       uncoveredPairs"

section \<open>The clauses of the encoding, as a set\<close>

text \<open>
  \<open>adjs\<close> lists the adjacent ordered pairs of slots in the order of the two inner loops;
  \<open>defs\<close> are the three clauses of one auxiliary variable \<open>y\<close>, and \<open>cov\<close> all clauses
  appended for one uncovered pair when \<open>nextVar\<close> is \<open>nv\<close>.
\<close>

definition adjs :: "nat \<Rightarrow> bool list list \<Rightarrow> (nat \<times> nat) list" where
  "adjs n adjMatrix =
     filter (\<lambda>(s1, s2). adjMatrix ! s1 ! s2) (concat (map (\<lambda>s1. map (Pair s1) [0..<n]) [0..<n]))"

definition defs :: "nat \<Rightarrow> nat \<Rightarrow> nat \<Rightarrow> int \<Rightarrow> nat \<times> nat \<Rightarrow> int list set" where
  "defs n a b y st =
     {[- y, varIdx n a (fst st)], [- y, varIdx n b (snd st)],
      [- varIdx n a (fst st), - varIdx n b (snd st), y]}"

definition cov :: "nat \<Rightarrow> (nat \<times> nat) list \<Rightarrow> int \<Rightarrow> nat \<times> nat \<Rightarrow> int list set" where
  "cov n F nv pair =
     (\<Union>r < length F. defs n (fst pair) (snd pair) (nv + int r) (F ! r)) \<union>
     {map (\<lambda>r. nv + int r) [0..<length F]}"

lemma adjs_set: "set (adjs n adjMatrix) = {(s, t). s < n \<and> t < n \<and> adjMatrix ! s ! t}"
proof -
  have "(s, t) \<in> set (adjs n adjMatrix) \<longleftrightarrow> s < n \<and> t < n \<and> adjMatrix ! s ! t" for s t
    by (auto simp: adjs_def image_iff)
  then show ?thesis by auto
qed

lemma aux_fold:
  "fold (\<lambda>(s1, s2). aux_step n adjM a b s1 s2) ps (cl, nv, aux) = (cl', nv', aux') \<Longrightarrow>
   F = filter (\<lambda>(s1, s2). adjM ! s1 ! s2) ps \<Longrightarrow>
   nv' = nv + int (length F) \<and> aux' = aux @ map (\<lambda>r. nv + int r) [0..<length F] \<and>
   set cl' = set cl \<union> (\<Union>r < length F. defs n a b (nv + int r) (F ! r))"
proof (induction ps arbitrary: cl nv aux F)
  case Nil
  then show ?case by simp
next
  case (Cons x ps)
  obtain s1 s2 where x: "x = (s1, s2)" by (cases x)
  define F' where "F' = filter (\<lambda>(s1, s2). adjM ! s1 ! s2) ps"
  show ?case
  proof (cases "adjM ! s1 ! s2")
    case False
    then have "fold (\<lambda>(s1, s2). aux_step n adjM a b s1 s2) ps (cl, nv, aux) = (cl', nv', aux')"
      using Cons.prems(1) by (simp add: x aux_step_def)
    from Cons.IH [OF this F'_def] show ?thesis
      using False Cons.prems(2) by (simp add: x F'_def)
  next
    case True
    define cl1 where "cl1 = cl @ [[- nv, varIdx n a s1], [- nv, varIdx n b s2],
                      [- varIdx n a s1, - varIdx n b s2, nv]]"
    have "fold (\<lambda>(s1, s2). aux_step n adjM a b s1 s2) ps (cl1, nv + 1, aux @ [nv]) = (cl', nv', aux')"
      using Cons.prems(1) True by (simp add: x aux_step_def cl1_def Let_def)
    from Cons.IH [OF this F'_def] have
      n': "nv' = nv + 1 + int (length F')"
      and a': "aux' = (aux @ [nv]) @ map (\<lambda>r. nv + 1 + int r) [0..<length F']"
      and c': "set cl' = set cl1 \<union> (\<Union>r < length F'. defs n a b (nv + 1 + int r) (F' ! r))"
      by simp_all
    have F: "F = (s1, s2) # F'" using True Cons.prems(2) by (simp add: x F'_def)
    have u: "[0..<Suc (length F')] = 0 # map Suc [0..<length F']"
      by (simp add: upt_conv_Cons map_Suc_upt del: upt_Suc)
    have "map (\<lambda>r. nv + int r) [0..<Suc (length F')] =
        map (\<lambda>r. nv + int r) (0 # map Suc [0..<length F'])"
      by (simp only: u)
    also have "\<dots> = nv # map (\<lambda>r. nv + 1 + int r) [0..<length F']"
      by (simp add: comp_def add.assoc add.commute)
    finally have m: "map (\<lambda>r. nv + int r) [0..<length F] = nv # map (\<lambda>r. nv + 1 + int r) [0..<length F']"
      by (simp only: F length_Cons)
    have "(\<Union>r < length F. defs n a b (nv + int r) (F ! r)) =
        defs n a b nv (s1, s2) \<union> (\<Union>r < length F'. defs n a b (nv + 1 + int r) (F' ! r))"
    proof -
      have "{..<length F} = insert 0 (Suc ` {..<length F'})"
        by (auto simp: F lessThan_Suc_eq_insert_0)
      then show ?thesis by (simp add: F image_image algebra_simps)
    qed
    moreover have "set cl1 = set cl \<union> defs n a b nv (s1, s2)"
      by (auto simp: cl1_def defs_def)
    ultimately show ?thesis using n' a' c' m by (simp add: F Un_assoc)
  qed
qed

lemma pair_step_set:
  assumes "pair_step n adjM pair (cl, nv) = (cl', nv')"
  shows "nv' = nv + int (length (adjs n adjM)) \<and> set cl' = set cl \<union> cov n (adjs n adjM) nv pair"
proof -
  obtain a b where p: "pair = (a, b)" by (cases pair)
  define ps where "ps = concat (map (\<lambda>s1. map (Pair s1) [0..<n]) [0..<n])"
  obtain c1 n1 a1 where
    f: "fold (\<lambda>(s1, s2). aux_step n adjM a b s1 s2) ps (cl, nv, []) = (c1, n1, a1)"
    by (metis prod_cases3)
  have e: "cl' = c1 @ [a1]" "nv' = n1"
    using assms f by (simp_all add: pair_step_def p fold_nested_rows ps_def)
  from aux_fold [OF f, of "adjs n adjM"] have
    "n1 = nv + int (length (adjs n adjM))"
    "a1 = map (\<lambda>r. nv + int r) [0..<length (adjs n adjM)]"
    "set c1 = set cl \<union> (\<Union>r < length (adjs n adjM). defs n a b (nv + int r) (adjs n adjM ! r))"
    by (simp_all add: adjs_def ps_def)
  then show ?thesis by (simp add: e cov_def p Un_assoc)
qed

lemma pairs_fold_set:
  "fold (pair_step n adjM) pairs (cl, nv) = (cl', nv') \<Longrightarrow>
   set cl' = set cl \<union>
     (\<Union>p < length pairs. cov n (adjs n adjM) (nv + int (p * length (adjs n adjM))) (pairs ! p))"
proof (induction pairs arbitrary: cl nv)
  case Nil
  then show ?case by simp
next
  case (Cons pair pairs)
  define m where "m = length (adjs n adjM)"
  obtain c1 n1 where s: "pair_step n adjM pair (cl, nv) = (c1, n1)" by (cases "pair_step n adjM pair (cl, nv)")
  from pair_step_set [OF s] have
    n1: "n1 = nv + int m" and c1: "set c1 = set cl \<union> cov n (adjs n adjM) nv pair"
    by (simp_all add: m_def)
  have "fold (pair_step n adjM) pairs (c1, n1) = (cl', nv')" using Cons.prems s by simp
  from Cons.IH [OF this] have
    c': "set cl' = set c1 \<union> (\<Union>p < length pairs. cov n (adjs n adjM) (n1 + int (p * m)) (pairs ! p))"
    by (simp add: m_def)
  have "{..<length (pair # pairs)} = insert 0 (Suc ` {..<length pairs})"
    by (auto simp: lessThan_Suc_eq_insert_0)
  then have "(\<Union>p < length (pair # pairs). cov n (adjs n adjM) (nv + int (p * m)) ((pair # pairs) ! p)) =
      cov n (adjs n adjM) nv pair \<union>
      (\<Union>p < length pairs. cov n (adjs n adjM) (n1 + int (p * m)) (pairs ! p))"
    by (simp add: image_image n1 algebra_simps)
  then show ?case using c' c1 by (simp add: m_def Un_assoc)
qed

lemma solveSAT_clauses_set:
  "set (solveSAT_clauses n pairs adjM) =
     set (constraint1 n) \<union> set (constraint2 n) \<union> set (constraint3 n) \<union> set (constraint4 n) \<union>
     (\<Union>p < length pairs.
        cov n (adjs n adjM) (int (n * n + 1) + int (p * length (adjs n adjM))) (pairs ! p))"
proof -
  obtain cl' nv' where
    f: "fold (pair_step n adjM) pairs
          (constraint1 n @ constraint2 n @ constraint3 n @ constraint4 n, int (n * n + 1)) = (cl', nv')"
    by (metis surj_pair)
  from pairs_fold_set [OF f] f show ?thesis
    by (simp add: solveSAT_clauses_def Un_assoc)
qed

section \<open>What a model of the clauses says\<close>

lemma satisfies_iff:
  "satisfies model clauses \<longleftrightarrow> (\<forall>c \<in> set clauses. \<exists>l \<in> set c. lit_true model l)"
  by (simp add: satisfies_def list_all_iff list_ex_iff)

lemma varIdx_pos: "0 < varIdx n item slot"
proof -
  have "0 < item * n + slot + 1" by simp
  then show ?thesis unfolding varIdx_def by (simp only: of_nat_0_less_iff)
qed

lemma lit_true_pos [simp]: "lit_true model (varIdx n item slot) = var_true model (varIdx n item slot)"
  using varIdx_pos [of n item slot] by (simp add: lit_true_def)

lemma lit_true_neg [simp]:
  "lit_true model (- varIdx n item slot) = (\<not> var_true model (varIdx n item slot))"
  using varIdx_pos [of n item slot] by (simp add: lit_true_def)

lemma row_clause:
  "(\<exists>l \<in> set (map f [0..<n]). lit_true model l) \<longleftrightarrow> (\<exists>k < n. lit_true model (f k))"
  by (simp add: Bex_def)

lemma rows_mem: "c \<in> set (map g [0..<n]) \<longleftrightarrow> (\<exists>k < n. c = g k)"
  by (simp add: image_iff Bex_def)

lemma sat_constraint1:
  "(\<forall>c \<in> set (constraint1 n). \<exists>l \<in> set c. lit_true model l) \<longleftrightarrow>
   (\<forall>item < n. \<exists>slot < n. var_true model (varIdx n item slot))"
proof -
  have "(\<forall>c \<in> set (constraint1 n). \<exists>l \<in> set c. lit_true model l) \<longleftrightarrow>
      (\<forall>item < n. \<exists>l \<in> set (map (\<lambda>slot. varIdx n item slot) [0..<n]). lit_true model l)"
    unfolding constraint1_def Ball_def rows_mem by blast
  then show ?thesis unfolding row_clause by simp
qed

lemma sat_constraint3:
  "(\<forall>c \<in> set (constraint3 n). \<exists>l \<in> set c. lit_true model l) \<longleftrightarrow>
   (\<forall>slot < n. \<exists>item < n. var_true model (varIdx n item slot))"
proof -
  have "(\<forall>c \<in> set (constraint3 n). \<exists>l \<in> set c. lit_true model l) \<longleftrightarrow>
      (\<forall>slot < n. \<exists>l \<in> set (map (\<lambda>item. varIdx n item slot) [0..<n]). lit_true model l)"
    unfolding constraint3_def Ball_def rows_mem by blast
  then show ?thesis unfolding row_clause by simp
qed

lemma in_concat_map: "x \<in> set xs \<Longrightarrow> y \<in> set (f x) \<Longrightarrow> y \<in> set (concat (map f xs))"
  by auto

lemma concat_map_mem:
  "y \<in> set (concat (map f [0..<n])) \<longleftrightarrow> (\<exists>k < n. y \<in> set (f k))"
  by (simp add: Bex_def)

lemma upt_map_mem: "c \<in> set (map g [i + 1..<n]) \<longleftrightarrow> (\<exists>k. i < k \<and> k < n \<and> c = g k)"
proof -
  have "set [i + 1..<n] = {k. i < k \<and> k < n}" by auto
  then show ?thesis unfolding set_map by blast
qed

lemma constraint2_mem:
  "c \<in> set (constraint2 n) \<longleftrightarrow>
     (\<exists>item s1 s2. item < n \<and> s1 < s2 \<and> s2 < n \<and> c = [- varIdx n item s1, - varIdx n item s2])"
proof -
  have "c \<in> set (constraint2 n) \<longleftrightarrow>
     (\<exists>item<n. \<exists>s1<n. \<exists>s2. s1 < s2 \<and> s2 < n \<and> c = [- varIdx n item s1, - varIdx n item s2])"
    unfolding constraint2_def concat_map_mem upt_map_mem ..
  also have "\<dots> \<longleftrightarrow> (\<exists>item s1 s2. item < n \<and> s1 < s2 \<and> s2 < n \<and>
      c = [- varIdx n item s1, - varIdx n item s2])" (is "?A \<longleftrightarrow> ?B")
  proof
    assume ?A
    then obtain item s1 s2 where h: "item < n" "s1 < s2" "s2 < n"
      "c = [- varIdx n item s1, - varIdx n item s2]" by blast
    show ?B by (intro exI [of _ item] exI [of _ s1] exI [of _ s2] conjI) (rule h)+
  next
    assume ?B
    then obtain item s1 s2 where h: "item < n" "s1 < s2" "s2 < n"
      "c = [- varIdx n item s1, - varIdx n item s2]" by blast
    have k: "s1 < n" using h(2,3) by simp
    show ?A by (intro exI [of _ item] exI [of _ s1] exI [of _ s2] conjI) (rule h k)+
  qed
  finally show ?thesis .
qed

lemma constraint4_mem:
  "c \<in> set (constraint4 n) \<longleftrightarrow>
     (\<exists>slot i1 i2. slot < n \<and> i1 < i2 \<and> i2 < n \<and> c = [- varIdx n i1 slot, - varIdx n i2 slot])"
proof -
  have "c \<in> set (constraint4 n) \<longleftrightarrow>
     (\<exists>slot<n. \<exists>i1<n. \<exists>i2. i1 < i2 \<and> i2 < n \<and> c = [- varIdx n i1 slot, - varIdx n i2 slot])"
    unfolding constraint4_def concat_map_mem upt_map_mem ..
  also have "\<dots> \<longleftrightarrow> (\<exists>slot i1 i2. slot < n \<and> i1 < i2 \<and> i2 < n \<and>
      c = [- varIdx n i1 slot, - varIdx n i2 slot])" (is "?A \<longleftrightarrow> ?B")
  proof
    assume ?A
    then obtain slot i1 i2 where h: "slot < n" "i1 < i2" "i2 < n"
      "c = [- varIdx n i1 slot, - varIdx n i2 slot]" by blast
    show ?B by (intro exI [of _ slot] exI [of _ i1] exI [of _ i2] conjI) (rule h)+
  next
    assume ?B
    then obtain slot i1 i2 where h: "slot < n" "i1 < i2" "i2 < n"
      "c = [- varIdx n i1 slot, - varIdx n i2 slot]" by blast
    have k: "i1 < n" using h(2,3) by simp
    show ?A by (intro exI [of _ slot] exI [of _ i1] exI [of _ i2] conjI) (rule h k)+
  qed
  finally show ?thesis .
qed

lemma pair_clause:
  "(\<exists>l \<in> set [- varIdx n a s, - varIdx n b t]. lit_true model l) \<longleftrightarrow>
   \<not> (var_true model (varIdx n a s) \<and> var_true model (varIdx n b t))"
  by simp

lemma sat_constraint2:
  "(\<forall>c \<in> set (constraint2 n). \<exists>l \<in> set c. lit_true model l) \<longleftrightarrow>
   (\<forall>item s1 s2. item < n \<and> s1 < s2 \<and> s2 < n \<longrightarrow>
      \<not> (var_true model (varIdx n item s1) \<and> var_true model (varIdx n item s2)))"
proof
  assume L: "\<forall>c \<in> set (constraint2 n). \<exists>l \<in> set c. lit_true model l"
  show "\<forall>item s1 s2. item < n \<and> s1 < s2 \<and> s2 < n \<longrightarrow>
      \<not> (var_true model (varIdx n item s1) \<and> var_true model (varIdx n item s2))"
  proof (intro allI impI)
    fix item s1 s2 assume h: "item < n \<and> s1 < s2 \<and> s2 < n"
    then have "[- varIdx n item s1, - varIdx n item s2] \<in> set (constraint2 n)"
      unfolding constraint2_mem by blast
    with L have "\<exists>l \<in> set [- varIdx n item s1, - varIdx n item s2]. lit_true model l" by (rule bspec)
    then show "\<not> (var_true model (varIdx n item s1) \<and> var_true model (varIdx n item s2))"
      unfolding pair_clause .
  qed
next
  assume R: "\<forall>item s1 s2. item < n \<and> s1 < s2 \<and> s2 < n \<longrightarrow>
      \<not> (var_true model (varIdx n item s1) \<and> var_true model (varIdx n item s2))"
  show "\<forall>c \<in> set (constraint2 n). \<exists>l \<in> set c. lit_true model l"
  proof
    fix c assume "c \<in> set (constraint2 n)"
    then obtain item s1 s2 where h: "item < n \<and> s1 < s2 \<and> s2 < n"
      and c: "c = [- varIdx n item s1, - varIdx n item s2]"
      unfolding constraint2_mem by blast
    from R h have "\<not> (var_true model (varIdx n item s1) \<and> var_true model (varIdx n item s2))"
      by blast
    then show "\<exists>l \<in> set c. lit_true model l" unfolding c pair_clause .
  qed
qed

lemma sat_constraint4:
  "(\<forall>c \<in> set (constraint4 n). \<exists>l \<in> set c. lit_true model l) \<longleftrightarrow>
   (\<forall>slot i1 i2. slot < n \<and> i1 < i2 \<and> i2 < n \<longrightarrow>
      \<not> (var_true model (varIdx n i1 slot) \<and> var_true model (varIdx n i2 slot)))"
proof
  assume L: "\<forall>c \<in> set (constraint4 n). \<exists>l \<in> set c. lit_true model l"
  show "\<forall>slot i1 i2. slot < n \<and> i1 < i2 \<and> i2 < n \<longrightarrow>
      \<not> (var_true model (varIdx n i1 slot) \<and> var_true model (varIdx n i2 slot))"
  proof (intro allI impI)
    fix slot i1 i2 assume h: "slot < n \<and> i1 < i2 \<and> i2 < n"
    then have "[- varIdx n i1 slot, - varIdx n i2 slot] \<in> set (constraint4 n)"
      unfolding constraint4_mem by blast
    with L have "\<exists>l \<in> set [- varIdx n i1 slot, - varIdx n i2 slot]. lit_true model l" by (rule bspec)
    then show "\<not> (var_true model (varIdx n i1 slot) \<and> var_true model (varIdx n i2 slot))"
      unfolding pair_clause .
  qed
next
  assume R: "\<forall>slot i1 i2. slot < n \<and> i1 < i2 \<and> i2 < n \<longrightarrow>
      \<not> (var_true model (varIdx n i1 slot) \<and> var_true model (varIdx n i2 slot))"
  show "\<forall>c \<in> set (constraint4 n). \<exists>l \<in> set c. lit_true model l"
  proof
    fix c assume "c \<in> set (constraint4 n)"
    then obtain slot i1 i2 where h: "slot < n \<and> i1 < i2 \<and> i2 < n"
      and c: "c = [- varIdx n i1 slot, - varIdx n i2 slot]"
      unfolding constraint4_mem by blast
    from R h have "\<not> (var_true model (varIdx n i1 slot) \<and> var_true model (varIdx n i2 slot))"
      by blast
    then show "\<exists>l \<in> set c. lit_true model l" unfolding c pair_clause .
  qed
qed

section \<open>Models of the encoding and arrangements\<close>

lemma lit_true_var: "0 < y \<Longrightarrow> lit_true model y = var_true model y"
  by (simp add: lit_true_def)

lemma lit_true_neg_var: "0 < y \<Longrightarrow> lit_true model (- y) = (\<not> var_true model y)"
  by (simp add: lit_true_def)

lemma defs_sat:
  assumes "0 < y"
  shows "(\<forall>c \<in> defs n a b y st. \<exists>l \<in> set c. lit_true model l) \<longleftrightarrow>
     (var_true model y \<longleftrightarrow>
        var_true model (varIdx n a (fst st)) \<and> var_true model (varIdx n b (snd st)))"
  unfolding defs_def by (simp add: lit_true_var [OF assms] lit_true_neg_var [OF assms]) blast

lemma cov_sat:
  assumes "0 < nv"
  shows "(\<forall>c \<in> cov n F nv pair. \<exists>l \<in> set c. lit_true model l) \<longleftrightarrow>
     (\<forall>r < length F. var_true model (nv + int r) \<longleftrightarrow>
        var_true model (varIdx n (fst pair) (fst (F ! r))) \<and>
        var_true model (varIdx n (snd pair) (snd (F ! r)))) \<and>
     (\<exists>r < length F. var_true model (nv + int r))"
proof -
  have p: "0 < nv + int r" for r using assms by simp
  have "(\<forall>c \<in> cov n F nv pair. \<exists>l \<in> set c. lit_true model l) \<longleftrightarrow>
      (\<forall>r < length F. \<forall>c \<in> defs n (fst pair) (snd pair) (nv + int r) (F ! r).
          \<exists>l \<in> set c. lit_true model l) \<and>
      (\<exists>l \<in> set (map (\<lambda>r. nv + int r) [0..<length F]). lit_true model l)"
    unfolding cov_def by (simp only: ball_Un ball_UN) blast
  then show ?thesis
    by (simp only: defs_sat [OF p] row_clause lit_true_var [OF p])
qed

lemma satisfies_solveSAT_clauses:
  "satisfies model (solveSAT_clauses n pairs adjM) \<longleftrightarrow>
     (\<forall>item < n. \<exists>slot < n. var_true model (varIdx n item slot)) \<and>
     (\<forall>item s1 s2. item < n \<and> s1 < s2 \<and> s2 < n \<longrightarrow>
        \<not> (var_true model (varIdx n item s1) \<and> var_true model (varIdx n item s2))) \<and>
     (\<forall>slot < n. \<exists>item < n. var_true model (varIdx n item slot)) \<and>
     (\<forall>slot i1 i2. slot < n \<and> i1 < i2 \<and> i2 < n \<longrightarrow>
        \<not> (var_true model (varIdx n i1 slot) \<and> var_true model (varIdx n i2 slot))) \<and>
     (\<forall>p < length pairs.
        (\<forall>r < length (adjs n adjM).
           var_true model (int (n * n + 1) + int (p * length (adjs n adjM)) + int r) \<longleftrightarrow>
             var_true model (varIdx n (fst (pairs ! p)) (fst (adjs n adjM ! r))) \<and>
             var_true model (varIdx n (snd (pairs ! p)) (snd (adjs n adjM ! r)))) \<and>
        (\<exists>r < length (adjs n adjM).
           var_true model (int (n * n + 1) + int (p * length (adjs n adjM)) + int r)))"
proof -
  have p: "0 < int (n * n + 1) + int (p * length (adjs n adjM))" for p
  proof -
    have "0 < n * n + 1 + p * length (adjs n adjM)" by simp
    then have "0 < int (n * n + 1 + p * length (adjs n adjM))" by (simp only: of_nat_0_less_iff)
    then show ?thesis unfolding of_nat_add [of "n * n + 1" "p * length (adjs n adjM)"] .
  qed
  have "satisfies model (solveSAT_clauses n pairs adjM) \<longleftrightarrow>
     (\<forall>c \<in> set (constraint1 n). \<exists>l \<in> set c. lit_true model l) \<and>
     (\<forall>c \<in> set (constraint2 n). \<exists>l \<in> set c. lit_true model l) \<and>
     (\<forall>c \<in> set (constraint3 n). \<exists>l \<in> set c. lit_true model l) \<and>
     (\<forall>c \<in> set (constraint4 n). \<exists>l \<in> set c. lit_true model l) \<and>
     (\<forall>p < length pairs. \<forall>c \<in> cov n (adjs n adjM)
         (int (n * n + 1) + int (p * length (adjs n adjM))) (pairs ! p).
        \<exists>l \<in> set c. lit_true model l)"
    unfolding satisfies_iff solveSAT_clauses_set
    by (simp only: ball_Un ball_UN lessThan_iff conj_assoc Ball_def [of "{..<length pairs}"])
  then show ?thesis
    by (simp only: sat_constraint1 sat_constraint2 sat_constraint3 sat_constraint4 cov_sat [OF p])
qed

subsection \<open>From a model to an arrangement\<close>

lemma one_slot:
  assumes "\<forall>item s1 s2. item < (n :: nat) \<and> s1 < s2 \<and> s2 < n \<longrightarrow> \<not> (X item s1 \<and> X item s2)"
    and "item < n" "s < n" "t < n" "X item s" "X item t"
  shows "s = t"
proof (rule ccontr)
  assume "s \<noteq> t"
  then consider "s < t" | "t < s" by (meson nat_neq_iff)
  then show False
  proof cases
    case 1
    with assms(1,2,4) have "\<not> (X item s \<and> X item t)" by blast
    with assms(5,6) show False by blast
  next
    case 2
    with assms(1,2,3) have "\<not> (X item t \<and> X item s)" by blast
    with assms(5,6) show False by blast
  qed
qed

lemma one_item:
  assumes "\<forall>slot i1 i2. slot < (n :: nat) \<and> i1 < i2 \<and> i2 < n \<longrightarrow> \<not> (X i1 slot \<and> X i2 slot)"
    and "slot < n" "i < n" "j < n" "X i slot" "X j slot"
  shows "i = j"
proof (rule ccontr)
  assume "i \<noteq> j"
  then consider "i < j" | "j < i" by (meson nat_neq_iff)
  then show False
  proof cases
    case 1
    with assms(1,2,4) have "\<not> (X i slot \<and> X j slot)" by blast
    with assms(5,6) show False by blast
  next
    case 2
    with assms(1,2,3) have "\<not> (X j slot \<and> X i slot)" by blast
    with assms(5,6) show False by blast
  qed
qed

lemma decode_item_placed:
  assumes e1: "\<forall>item < n. \<exists>slot < n. var_true model (varIdx n item slot)"
    and u1: "\<forall>item s1 s2. item < n \<and> s1 < s2 \<and> s2 < n \<longrightarrow>
        \<not> (var_true model (varIdx n item s1) \<and> var_true model (varIdx n item s2))"
    and k: "k < n"
  shows "\<exists>slot < n. var_true model (varIdx n k slot) \<and>
     decode_item n model k arr = arr[slot := k]"
proof -
  from e1 k obtain s where s: "s < n" "var_true model (varIdx n k s)" by blast
  then have "find (\<lambda>slot. var_true model (varIdx n k slot)) [0..<n] \<noteq> None"
    by (simp add: find_None_iff) blast
  then obtain slot where f: "find (\<lambda>slot. var_true model (varIdx n k slot)) [0..<n] = Some slot"
    by blast
  then have "slot < n \<and> var_true model (varIdx n k slot)"
    by (auto simp: find_Some_iff)
  then show ?thesis using f by (intro exI [of _ slot]) (simp add: decode_item_def)
qed

lemma decode_fold:
  assumes e1: "\<forall>item < n. \<exists>slot < n. var_true model (varIdx n item slot)"
    and u1: "\<forall>item s1 s2. item < n \<and> s1 < s2 \<and> s2 < n \<longrightarrow>
        \<not> (var_true model (varIdx n item s1) \<and> var_true model (varIdx n item s2))"
    and u2: "\<forall>slot i1 i2. slot < n \<and> i1 < i2 \<and> i2 < n \<longrightarrow>
        \<not> (var_true model (varIdx n i1 slot) \<and> var_true model (varIdx n i2 slot))"
  shows "k \<le> n \<Longrightarrow>
     length (fold (decode_item n model) [0..<k] (replicate n 0)) = n \<and>
     (\<forall>item < k. \<forall>slot < n. var_true model (varIdx n item slot) \<longrightarrow>
         fold (decode_item n model) [0..<k] (replicate n 0) ! slot = item)"
proof (induction k)
  case 0
  then show ?case by simp
next
  case (Suc k)
  define arr where "arr = fold (decode_item n model) [0..<k] (replicate n 0)"
  have k: "k < n" using Suc.prems by simp
  have ih: "length arr = n"
    "\<And>item slot. item < k \<Longrightarrow> slot < n \<Longrightarrow> var_true model (varIdx n item slot) \<Longrightarrow>
       arr ! slot = item"
    using Suc.IH k by (simp_all add: arr_def)
  from decode_item_placed [OF e1 u1 k, of arr] obtain s where
    s: "s < n" "var_true model (varIdx n k s)" "decode_item n model k arr = arr[s := k]"
    by blast
  have st: "fold (decode_item n model) [0..<Suc k] (replicate n 0) = arr[s := k]"
    by (simp add: arr_def [symmetric] s(3))
  have "arr[s := k] ! slot = item"
    if h: "item < Suc k" "slot < n" "var_true model (varIdx n item slot)" for item slot
  proof (cases "item = k")
    case True
    have "slot = s"
      by (rule one_slot [where X = "\<lambda>i t. var_true model (varIdx n i t)", OF u1 k h(2) s(1)])
        (use h(3) s(2) True in simp_all)
    then show ?thesis using True ih(1) s(1) by simp
  next
    case False
    then have lt: "item < k" using h(1) by simp
    have "slot \<noteq> s"
    proof
      assume "slot = s"
      have "item = k"
        by (rule one_item [where X = "\<lambda>i t. var_true model (varIdx n i t)", OF u2 s(1) _ k])
          (use lt k h(3) s(2) \<open>slot = s\<close> in simp_all)
      with False show False by simp
    qed
    then show ?thesis using ih(2) [OF lt h(2,3)] by simp
  qed
  then show ?case unfolding st using ih(1) by simp
qed

lemma decode_model_placed:
  assumes e1: "\<forall>item < n. \<exists>slot < n. var_true model (varIdx n item slot)"
    and u1: "\<forall>item s1 s2. item < n \<and> s1 < s2 \<and> s2 < n \<longrightarrow>
        \<not> (var_true model (varIdx n item s1) \<and> var_true model (varIdx n item s2))"
    and u2: "\<forall>slot i1 i2. slot < n \<and> i1 < i2 \<and> i2 < n \<longrightarrow>
        \<not> (var_true model (varIdx n i1 slot) \<and> var_true model (varIdx n i2 slot))"
  shows "length (decode_model n model) = n"
    and "item < n \<Longrightarrow> slot < n \<Longrightarrow> var_true model (varIdx n item slot) \<Longrightarrow>
         decode_model n model ! slot = item"
  using decode_fold [OF e1 u1 u2, of n] by (simp_all add: decode_model_def)

lemma decode_model_perm:
  assumes e1: "\<forall>item < n. \<exists>slot < n. var_true model (varIdx n item slot)"
    and u1: "\<forall>item s1 s2. item < n \<and> s1 < s2 \<and> s2 < n \<longrightarrow>
        \<not> (var_true model (varIdx n item s1) \<and> var_true model (varIdx n item s2))"
    and e2: "\<forall>slot < n. \<exists>item < n. var_true model (varIdx n item slot)"
    and u2: "\<forall>slot i1 i2. slot < n \<and> i1 < i2 \<and> i2 < n \<longrightarrow>
        \<not> (var_true model (varIdx n i1 slot) \<and> var_true model (varIdx n i2 slot))"
  shows "mset (decode_model n model) = mset [0..<n]"
proof (rule perm_from_distinct)
  define arr where "arr = decode_model n model"
  note d = decode_model_placed [OF e1 u1 u2, folded arr_def]
  have at: "arr ! slot < n \<and> var_true model (varIdx n (arr ! slot) slot)" if "slot < n" for slot
  proof -
    from e2 that obtain item where i: "item < n" "var_true model (varIdx n item slot)" by blast
    from d(2) [OF i(1) that i(2)] i show ?thesis by simp
  qed
  have "arr ! s \<noteq> arr ! t" if h: "s < n" "t < n" "s \<noteq> t" for s t
  proof
    assume eq: "arr ! s = arr ! t"
    have "s = t"
      by (rule one_slot [where X = "\<lambda>i t. var_true model (varIdx n i t)" and item = "arr ! s",
            OF u1 _ h(1,2)])
        (use at [OF h(1)] at [OF h(2)] eq in simp_all)
    with h(3) show False by simp
  qed
  then show "distinct (decode_model n model)"
    unfolding arr_def [symmetric] by (simp add: distinct_conv_nth d(1))
  have "set arr = {0..<n}"
  proof (intro set_eqI iffI)
    fix x assume "x \<in> set arr"
    then obtain s where "s < n" "arr ! s = x" by (auto simp: in_set_conv_nth d(1))
    then show "x \<in> {0..<n}" using at [of s] by auto
  next
    fix x assume "x \<in> {0..<n}"
    then have x: "x < n" by simp
    with e1 obtain s where s: "s < n" "var_true model (varIdx n x s)" by blast
    from d(2) [OF x s] have "arr ! s = x" .
    then show "x \<in> set arr" using s(1) d(1) by (metis nth_mem)
  qed
  then show "set (decode_model n model) = {0..<n}" by (simp add: arr_def)
qed

lemma decode_model_covers:
  assumes sat: "satisfies model (solveSAT_clauses n pairs adjM)"
    and rng: "\<forall>(a, b) \<in> set pairs. a < n \<and> b < n"
  shows "covers_pairs n adjM pairs (decode_model n model)"
proof -
  note s = sat [unfolded satisfies_solveSAT_clauses]
  from s have e1: "\<forall>item < n. \<exists>slot < n. var_true model (varIdx n item slot)" by (rule conjunct1)
  from s have u1: "\<forall>item s1 s2. item < n \<and> s1 < s2 \<and> s2 < n \<longrightarrow>
        \<not> (var_true model (varIdx n item s1) \<and> var_true model (varIdx n item s2))"
    by (elim conjE)
  from s have u2: "\<forall>slot i1 i2. slot < n \<and> i1 < i2 \<and> i2 < n \<longrightarrow>
        \<not> (var_true model (varIdx n i1 slot) \<and> var_true model (varIdx n i2 slot))"
    by (elim conjE)
  note d = decode_model_placed [OF e1 u1 u2]
  define F where "F = adjs n adjM"
  have "\<exists>s < n. \<exists>t < n. decode_model n model ! s = a \<and> decode_model n model ! t = b \<and> adjM ! s ! t"
    if m: "(a, b) \<in> set pairs" for a b
  proof -
    from m obtain p where p: "p < length pairs" "pairs ! p = (a, b)" by (auto simp: in_set_conv_nth)
    from rng m have ab: "a < n" "b < n" by auto
    from s p(1) have c:
      "(\<forall>r < length F.
           var_true model (int (n * n + 1) + int (p * length F) + int r) \<longleftrightarrow>
             var_true model (varIdx n (fst (pairs ! p)) (fst (F ! r))) \<and>
             var_true model (varIdx n (snd (pairs ! p)) (snd (F ! r)))) \<and>
        (\<exists>r < length F. var_true model (int (n * n + 1) + int (p * length F) + int r))"
      unfolding F_def by blast
    then obtain r where r: "r < length F"
      "var_true model (varIdx n a (fst (F ! r)))" "var_true model (varIdx n b (snd (F ! r)))"
      unfolding p(2) by auto
    have "F ! r \<in> set F" using r(1) by simp
    then have f: "fst (F ! r) < n" "snd (F ! r) < n" "adjM ! fst (F ! r) ! snd (F ! r)"
      unfolding F_def adjs_set by auto
    from d(2) [OF ab(1) f(1) r(2)] d(2) [OF ab(2) f(2) r(3)] f
    show ?thesis by blast
  qed
  then show ?thesis unfolding covers_pairs_def list_all_iff by blast
qed

subsection \<open>From an arrangement to a model\<close>

text \<open>
  The assignment read off an arrangement: the placement variable of \<open>item\<close> and \<open>slot\<close> is
  true when \<open>arr3\<close> has the item on the slot, and the \<open>r\<close>-th auxiliary variable of the
  \<open>p\<close>-th pair is true when the pair sits on the \<open>r\<close>-th adjacent pair of slots.
\<close>

definition model_of :: "nat \<Rightarrow> (nat \<times> nat) list \<Rightarrow> bool list list \<Rightarrow> nat list \<Rightarrow> bool list" where
  "model_of n pairs adjM arr3 =
     map (\<lambda>k. if k < n * n then arr3 ! (k mod n) = k div n
              else arr3 ! fst (adjs n adjM ! ((k - n * n) mod length (adjs n adjM))) =
                     fst (pairs ! ((k - n * n) div length (adjs n adjM))) \<and>
                   arr3 ! snd (adjs n adjM ! ((k - n * n) mod length (adjs n adjM))) =
                     snd (pairs ! ((k - n * n) div length (adjs n adjM))))
       [0..<n * n + length pairs * length (adjs n adjM)]"

lemma var_true_nat:
  "var_true model (int (Suc k)) \<longleftrightarrow> k < length model \<and> model ! k"
proof -
  have a: "(1 :: int) \<le> int (Suc k)" by simp
  have b: "int (Suc k) \<le> int (length model) \<longleftrightarrow> k < length model"
    by (simp only: of_nat_le_iff Suc_le_eq)
  have c: "nat (int (Suc k)) - 1 = k" by (simp only: nat_int diff_Suc_1)
  show ?thesis by (simp only: var_true_def a b c simp_thms)
qed

lemma grid_less: "item < n \<Longrightarrow> slot < n \<Longrightarrow> item * n + slot < n * (n :: nat)"
proof -
  assume a: "item < n" "slot < n"
  then have "item * n + slot < item * n + n" by simp
  also have "\<dots> = Suc item * n" by simp
  also have "\<dots> \<le> n * n" using a(1) by (metis Suc_leI mult_le_mono1)
  finally show ?thesis .
qed

lemma model_of_placed:
  assumes "item < n" "slot < n"
  shows "var_true (model_of n pairs adjM arr3) (varIdx n item slot) \<longleftrightarrow> arr3 ! slot = item"
proof -
  have v: "varIdx n item slot = int (Suc (item * n + slot))" by (simp add: varIdx_def)
  have l: "item * n + slot < n * n" by (rule grid_less [OF assms])
  have m: "(item * n + slot) mod n = slot" "(item * n + slot) div n = item"
    using assms by simp_all
  show ?thesis
    unfolding v var_true_nat using l m by (simp add: model_of_def)
qed

lemma model_of_aux:
  assumes "p < length pairs" "r < length (adjs n adjM)"
  shows "var_true (model_of n pairs adjM arr3)
           (int (n * n + 1) + int (p * length (adjs n adjM)) + int r) \<longleftrightarrow>
         arr3 ! fst (adjs n adjM ! r) = fst (pairs ! p) \<and>
         arr3 ! snd (adjs n adjM ! r) = snd (pairs ! p)"
proof -
  define m where "m = length (adjs n adjM)"
  have v: "int (n * n + 1) + int (p * m) + int r = int (Suc (n * n + (p * m + r)))" by simp
  have "p * m + r < p * m + m" using assms(2) by (simp add: m_def)
  also have "\<dots> = Suc p * m" by simp
  also have "\<dots> \<le> length pairs * m" using assms(1) by (metis Suc_leI mult_le_mono1)
  finally have l: "p * m + r < length pairs * m" .
  have r: "r < m" using assms(2) by (simp add: m_def)
  then have m0: "0 < m" by auto
  have d: "(p * m + r) mod m = r" "(p * m + r) div m = p"
    using r m0 by simp_all
  have k: "n * n + (p * m + r) - n * n = p * m + r" by (rule add_diff_cancel_left')
  show ?thesis
    unfolding m_def [symmetric] v var_true_nat
    using l d by (simp add: model_of_def m_def [symmetric] k)
qed

lemma covers_pairsD:
  assumes "covers_pairs n adjM pairs arr3" "(a, b) \<in> set pairs"
  shows "\<exists>s < n. \<exists>t < n. arr3 ! s = a \<and> arr3 ! t = b \<and> adjM ! s ! t"
proof -
  from assms(1) have "\<forall>x \<in> set pairs.
      (\<lambda>(a, b). \<exists>s < n. \<exists>t < n. arr3 ! s = a \<and> arr3 ! t = b \<and> adjM ! s ! t) x"
    by (simp only: covers_pairs_def list_all_iff)
  from bspec [OF this assms(2)] show ?thesis by (simp only: prod.case)
qed

lemma model_of_satisfies:
  assumes perm: "mset arr3 = mset [0..<n]"
    and cov: "covers_pairs n adjM pairs arr3"
    and rng: "\<forall>(a, b) \<in> set pairs. a < n \<and> b < n"
  shows "satisfies (model_of n pairs adjM arr3) (solveSAT_clauses n pairs adjM)"
proof -
  define M where "M = model_of n pairs adjM arr3"
  define F where "F = adjs n adjM"
  note pl = model_of_placed [of _ n _ pairs adjM arr3, folded M_def]
  note pp = perm_props [OF perm]
  have e1: "\<forall>item < n. \<exists>slot < n. var_true M (varIdx n item slot)"
  proof (intro allI impI)
    fix item assume i: "item < n"
    then have "item \<in> set arr3" using pp(3) by simp
    then obtain s where s: "s < n" "arr3 ! s = item" by (auto simp: in_set_conv_nth pp(1))
    then show "\<exists>slot < n. var_true M (varIdx n item slot)" using pl [OF i s(1)] by blast
  qed
  have u1: "\<forall>item s1 s2. item < n \<and> s1 < s2 \<and> s2 < n \<longrightarrow>
        \<not> (var_true M (varIdx n item s1) \<and> var_true M (varIdx n item s2))"
  proof (intro allI impI notI)
    fix item s1 s2
    assume h: "item < n \<and> s1 < s2 \<and> s2 < n"
      and t: "var_true M (varIdx n item s1) \<and> var_true M (varIdx n item s2)"
    from h have s: "s1 < n" "s2 < n" "item < n" "s1 \<noteq> s2" by simp_all
    from t have "arr3 ! s1 = item" "arr3 ! s2 = item"
      using pl [OF s(3) s(1)] pl [OF s(3) s(2)] by simp_all
    then have "s1 = s2" using perm_nth_inj [OF perm s(1) s(2)] by simp
    with s(4) show False by simp
  qed
  have e2: "\<forall>slot < n. \<exists>item < n. var_true M (varIdx n item slot)"
  proof (intro allI impI)
    fix slot assume s: "slot < n"
    have i: "arr3 ! slot < n" by (rule perm_nth_less [OF perm s])
    show "\<exists>item < n. var_true M (varIdx n item slot)" using pl [OF i s] i by blast
  qed
  have u2: "\<forall>slot i1 i2. slot < n \<and> i1 < i2 \<and> i2 < n \<longrightarrow>
        \<not> (var_true M (varIdx n i1 slot) \<and> var_true M (varIdx n i2 slot))"
  proof (intro allI impI notI)
    fix slot i1 i2
    assume h: "slot < n \<and> i1 < i2 \<and> i2 < n"
      and t: "var_true M (varIdx n i1 slot) \<and> var_true M (varIdx n i2 slot)"
    from h have s: "slot < n" "i1 < n" "i2 < n" "i1 \<noteq> i2" by simp_all
    from t have "arr3 ! slot = i1" "arr3 ! slot = i2"
      using pl [OF s(2) s(1)] pl [OF s(3) s(1)] by simp_all
    with s(4) show False by simp
  qed
  have c5: "\<forall>p < length pairs.
        (\<forall>r < length F.
           var_true M (int (n * n + 1) + int (p * length F) + int r) \<longleftrightarrow>
             var_true M (varIdx n (fst (pairs ! p)) (fst (F ! r))) \<and>
             var_true M (varIdx n (snd (pairs ! p)) (snd (F ! r)))) \<and>
        (\<exists>r < length F. var_true M (int (n * n + 1) + int (p * length F) + int r))"
  proof (intro allI impI conjI)
    fix p assume p: "p < length pairs"
    obtain a b where ab: "pairs ! p = (a, b)" by (cases "pairs ! p")
    have m: "(a, b) \<in> set pairs" using p ab by (metis nth_mem)
    with rng have lt: "a < n" "b < n" by auto
    have aux: "var_true M (int (n * n + 1) + int (p * length F) + int r) \<longleftrightarrow>
        arr3 ! fst (F ! r) = a \<and> arr3 ! snd (F ! r) = b" if "r < length F" for r
      using model_of_aux [OF p that [unfolded F_def], of arr3] by (simp add: M_def F_def ab)
    {
      fix r assume r: "r < length F"
      then have "F ! r \<in> set F" by simp
      then have f: "fst (F ! r) < n" "snd (F ! r) < n" unfolding F_def adjs_set by auto
      show "var_true M (int (n * n + 1) + int (p * length F) + int r) \<longleftrightarrow>
             var_true M (varIdx n (fst (pairs ! p)) (fst (F ! r))) \<and>
             var_true M (varIdx n (snd (pairs ! p)) (snd (F ! r)))"
        using aux [OF r] pl [OF lt(1) f(1)] pl [OF lt(2) f(2)] by (simp only: ab fst_conv snd_conv)
    }
    from covers_pairsD [OF cov m] obtain s t where
      st: "s < n" "t < n" "arr3 ! s = a" "arr3 ! t = b" "adjM ! s ! t"
      by blast
    then have "(s, t) \<in> set F" unfolding F_def adjs_set by simp
    then obtain r where r: "r < length F" "F ! r = (s, t)" by (auto simp: in_set_conv_nth)
    have "var_true M (int (n * n + 1) + int (p * length F) + int r)"
      unfolding aux [OF r(1)] r(2) using st by simp
    with r(1) show "\<exists>r < length F. var_true M (int (n * n + 1) + int (p * length F) + int r)"
      by blast
  qed
  show ?thesis
    unfolding satisfies_solveSAT_clauses M_def [symmetric] F_def [symmetric]
    by (intro conjI e1 u1 e2 u2 c5)
qed

subsection \<open>The encoding is correct\<close>

lemma exactly_one_slot:
  assumes e1: "\<forall>item < n. \<exists>slot < n. var_true model (varIdx n item slot)"
    and u1: "\<forall>item s1 s2. item < n \<and> s1 < s2 \<and> s2 < n \<longrightarrow>
        \<not> (var_true model (varIdx n item s1) \<and> var_true model (varIdx n item s2))"
  shows "\<forall>item < n. \<exists>!slot. slot < n \<and> var_true model (varIdx n item slot)"
proof (intro allI impI)
  fix item assume i: "item < n"
  with e1 obtain s where s: "s < n" "var_true model (varIdx n item s)" by blast
  show "\<exists>!slot. slot < n \<and> var_true model (varIdx n item slot)"
  proof (rule ex1I [of _ s])
    show "s < n \<and> var_true model (varIdx n item s)" using s by simp
    fix t assume t: "t < n \<and> var_true model (varIdx n item t)"
    show "t = s"
      by (rule one_slot [where X = "\<lambda>i t. var_true model (varIdx n i t)", OF u1 i _ s(1)])
        (use t s(2) in simp_all)
  qed
qed

lemma exactly_one_item:
  assumes e2: "\<forall>slot < n. \<exists>item < n. var_true model (varIdx n item slot)"
    and u2: "\<forall>slot i1 i2. slot < n \<and> i1 < i2 \<and> i2 < n \<longrightarrow>
        \<not> (var_true model (varIdx n i1 slot) \<and> var_true model (varIdx n i2 slot))"
  shows "\<forall>slot < n. \<exists>!item. item < n \<and> var_true model (varIdx n item slot)"
proof (intro allI impI)
  fix slot assume s: "slot < n"
  with e2 obtain i where i: "i < n" "var_true model (varIdx n i slot)" by blast
  show "\<exists>!item. item < n \<and> var_true model (varIdx n item slot)"
  proof (rule ex1I [of _ i])
    show "i < n \<and> var_true model (varIdx n i slot)" using i by simp
    fix j assume j: "j < n \<and> var_true model (varIdx n j slot)"
    show "j = i"
      by (rule one_item [where X = "\<lambda>i t. var_true model (varIdx n i t)", OF u2 s _ i(1)])
        (use j i(2) in simp_all)
  qed
qed

lemma model_gives_arrangement:
  assumes sat: "satisfies model (solveSAT_clauses n pairs adjM)"
    and rng: "\<forall>(a, b) \<in> set pairs. a < n \<and> b < n"
  shows "(\<forall>item < n. \<exists>!slot. slot < n \<and> var_true model (varIdx n item slot)) \<and>
    (\<forall>slot < n. \<exists>!item. item < n \<and> var_true model (varIdx n item slot)) \<and>
    mset (decode_model n model) = mset [0..<n] \<and>
    covers_pairs n adjM pairs (decode_model n model)"
proof -
  note s = sat [unfolded satisfies_solveSAT_clauses]
  from s have e1: "\<forall>item < n. \<exists>slot < n. var_true model (varIdx n item slot)" by (rule conjunct1)
  from s have u1: "\<forall>item s1 s2. item < n \<and> s1 < s2 \<and> s2 < n \<longrightarrow>
        \<not> (var_true model (varIdx n item s1) \<and> var_true model (varIdx n item s2))"
    by (elim conjE)
  from s have e2: "\<forall>slot < n. \<exists>item < n. var_true model (varIdx n item slot)" by (elim conjE)
  from s have u2: "\<forall>slot i1 i2. slot < n \<and> i1 < i2 \<and> i2 < n \<longrightarrow>
        \<not> (var_true model (varIdx n i1 slot) \<and> var_true model (varIdx n i2 slot))"
    by (elim conjE)
  show ?thesis
    by (intro conjI exactly_one_slot [OF e1 u1] exactly_one_item [OF e2 u2]
        decode_model_perm [OF e1 u1 e2 u2] decode_model_covers [OF sat rng])
qed

text \<open>
  Claim C3. \<open>n\<close> is any size, the uncovered pairs are pairs of items \<open>0 \<le> a, b < n\<close> and
  the adjacency matrix is \<open>n\<close> by \<open>n\<close>, so that every index of the source is in range.
  The clauses that \<open>solveSAT\<close> builds are satisfiable exactly when some arrangement
  \<open>arr3\<close>, a bijection from slots to items, puts every uncovered pair \<open>(a, b)\<close> on slots
  \<open>s\<close>, \<open>t\<close> with \<open>adjMatrix[s][t]\<close> (for a symmetric matrix: on adjacent slots). For every
  satisfying assignment the placement variables give each item exactly one slot and
  each slot exactly one item; and when the solver returns such an assignment,
  \<open>solveSAT\<close> returns true with the arrangement decoded from it, which is a bijection
  and covers all the uncovered pairs.
\<close>

theorem solveSAT_encoding:
  assumes pairs: "\<forall>(a, b) \<in> set uncoveredPairs. a < n \<and> b < n"
    and matrix: "length adjMatrix = n \<and> (\<forall>row \<in> set adjMatrix. length row = n)"
  shows "(satisfiable (solveSAT_clauses n uncoveredPairs adjMatrix) \<longleftrightarrow>
       (\<exists>arr3. mset arr3 = mset [0..<n] \<and> covers_pairs n adjMatrix uncoveredPairs arr3)) \<and>
    (\<forall>model. satisfies model (solveSAT_clauses n uncoveredPairs adjMatrix) \<longrightarrow>
       (\<forall>item < n. \<exists>!slot. slot < n \<and> var_true model (varIdx n item slot)) \<and>
       (\<forall>slot < n. \<exists>!item. item < n \<and> var_true model (varIdx n item slot)) \<and>
       (\<forall>solver. solver (solveSAT_clauses n uncoveredPairs adjMatrix) = Some model \<longrightarrow>
          (\<exists>arr3. solveSAT solver n uncoveredPairs adjMatrix = (True, arr3) \<and>
             mset arr3 = mset [0..<n] \<and> covers_pairs n adjMatrix uncoveredPairs arr3)))"
proof -
  have iff: "satisfiable (solveSAT_clauses n uncoveredPairs adjMatrix) \<longleftrightarrow>
       (\<exists>arr3. mset arr3 = mset [0..<n] \<and> covers_pairs n adjMatrix uncoveredPairs arr3)"
  proof
    assume "satisfiable (solveSAT_clauses n uncoveredPairs adjMatrix)"
    then obtain model where "satisfies model (solveSAT_clauses n uncoveredPairs adjMatrix)"
      unfolding satisfiable_def by blast
    from model_gives_arrangement [OF this pairs]
    show "\<exists>arr3. mset arr3 = mset [0..<n] \<and> covers_pairs n adjMatrix uncoveredPairs arr3"
      by blast
  next
    assume "\<exists>arr3. mset arr3 = mset [0..<n] \<and> covers_pairs n adjMatrix uncoveredPairs arr3"
    then obtain arr3 where "mset arr3 = mset [0..<n]" "covers_pairs n adjMatrix uncoveredPairs arr3"
      by blast
    from model_of_satisfies [OF this pairs]
    show "satisfiable (solveSAT_clauses n uncoveredPairs adjMatrix)"
      unfolding satisfiable_def by blast
  qed
  have models: "(\<forall>item < n. \<exists>!slot. slot < n \<and> var_true model (varIdx n item slot)) \<and>
       (\<forall>slot < n. \<exists>!item. item < n \<and> var_true model (varIdx n item slot)) \<and>
       (\<forall>solver. solver (solveSAT_clauses n uncoveredPairs adjMatrix) = Some model \<longrightarrow>
          (\<exists>arr3. solveSAT solver n uncoveredPairs adjMatrix = (True, arr3) \<and>
             mset arr3 = mset [0..<n] \<and> covers_pairs n adjMatrix uncoveredPairs arr3))"
    if sat: "satisfies model (solveSAT_clauses n uncoveredPairs adjMatrix)" for model
  proof -
    note g = model_gives_arrangement [OF sat pairs]
    have "\<exists>arr3. solveSAT solver n uncoveredPairs adjMatrix = (True, arr3) \<and>
        mset arr3 = mset [0..<n] \<and> covers_pairs n adjMatrix uncoveredPairs arr3"
      if s: "solver (solveSAT_clauses n uncoveredPairs adjMatrix) = Some model" for solver
    proof -
      have "solveSAT solver n uncoveredPairs adjMatrix = (True, decode_model n model)"
        by (simp add: solveSAT_def s)
      with g show ?thesis by blast
    qed
    with g show ?thesis by blast
  qed
  from iff models show ?thesis by blast
qed

lemma sat_example:
  "satisfies [True, False, False, True, True, False]
     (solveSAT_clauses 2 [(0, 1)] [[False, True], [True, False]])"
  by code_simp

theorem solveSAT_encoding_witness:
  "satisfiable (solveSAT_clauses 2 [(0, 1)] [[False, True], [True, False]]) \<and>
   (\<exists>arr3. solveSAT (\<lambda>clauses. Some [True, False, False, True, True, False]) 2 [(0, 1)]
        [[False, True], [True, False]] = (True, arr3) \<and>
      mset arr3 = mset [0..<2] \<and> covers_pairs 2 [[False, True], [True, False]] [(0, 1)] arr3)"
proof -
  have p: "\<forall>(a, b) \<in> set [(0 :: nat, 1 :: nat)]. a < 2 \<and> b < 2" by simp
  have m: "length [[False, True], [True, False]] = 2 \<and>
      (\<forall>row \<in> set [[False, True], [True, False]]. length row = 2)" by simp
  note t = solveSAT_encoding [OF p m]
  from t sat_example have
    "\<forall>solver. solver (solveSAT_clauses 2 [(0, 1)] [[False, True], [True, False]]) =
        Some [True, False, False, True, True, False] \<longrightarrow>
      (\<exists>arr3. solveSAT solver 2 [(0, 1)] [[False, True], [True, False]] = (True, arr3) \<and>
         mset arr3 = mset [0..<2] \<and> covers_pairs 2 [[False, True], [True, False]] [(0, 1)] arr3)"
    by blast
  then have "\<exists>arr3. solveSAT (\<lambda>clauses. Some [True, False, False, True, True, False]) 2 [(0, 1)]
        [[False, True], [True, False]] = (True, arr3) \<and>
      mset arr3 = mset [0..<2] \<and> covers_pairs 2 [[False, True], [True, False]] [(0, 1)] arr3"
    by simp
  moreover have "satisfiable (solveSAT_clauses 2 [(0, 1)] [[False, True], [True, False]])"
    unfolding satisfiable_def using sat_example by blast
  ultimately show ?thesis by blast
qed

end
